theory Spec2Isabelle
  imports Main "HOL-Library.Word"
begin

unbundle bit_operations_syntax

section \<open>The external scanner of the Kukicha grammar (scanner.c)\<close>

text \<open>
  The scanner produces the three structural tokens of an indentation-based syntax.
  Its state is a fixed array of indentation widths, the number of open levels and the
  number of DEDENT tokens still owed. All three are \<open>uint16_t\<close> in the source and
  16-bit words here; characters are the \<open>int32_t\<close> code points of the lexer.
\<close>

subsection \<open>Data\<close>

definition MAX_INDENT_DEPTH :: nat where
  "MAX_INDENT_DEPTH = 100"

datatype TokenType = INDENT | DEDENT | NEWLINE

record Scanner =
  indent_stack :: "16 word list"
  indent_depth :: "16 word"
  pending_dedents :: "16 word"

type_synonym valid_symbols = "TokenType \<Rightarrow> bool"

abbreviation ch_space :: "32 word" where "ch_space \<equiv> 32"
abbreviation ch_tab :: "32 word" where "ch_tab \<equiv> 9"
abbreviation ch_lf :: "32 word" where "ch_lf \<equiv> 10"
abbreviation ch_cr :: "32 word" where "ch_cr \<equiv> 13"
abbreviation ch_hash :: "32 word" where "ch_hash \<equiv> 35"

subsection \<open>The cursor\<close>

text \<open>
  Modelled from the spec: the cursor (\<open>TSLexer\<close>) is declared in
  \<open>tree_sitter/parser.h\<close>, which is not among the sources. Section 6 of the spec
  lists its capabilities: \<open>lookahead\<close>, \<open>advance(include_in_token)\<close>, \<open>mark_end\<close>,
  \<open>at_end_of_input\<close> and \<open>current_column\<close>. The record keeps the unread characters,
  the column of the current position, the characters taken into the token so far, the
  token as it stood at the last \<open>mark_end\<close>, and the \<open>result_symbol\<close> field the
  scanner assigns. At the end of input \<open>lookahead\<close> is 0 and advancing does nothing;
  a line feed resets the column.
\<close>

record TSLexer =
  input :: "32 word list"
  column :: nat
  token :: "32 word list"
  marked :: "32 word list option"
  result_symbol :: TokenType

definition lookahead :: "TSLexer \<Rightarrow> 32 word" where
  "lookahead l = (case input l of [] \<Rightarrow> 0 | c # _ \<Rightarrow> c)"

definition lexer_advance :: "TSLexer \<Rightarrow> bool \<Rightarrow> TSLexer" where
  "lexer_advance l skp =
     (case input l of
        [] \<Rightarrow> l
      | c # cs \<Rightarrow>
          l\<lparr>input := cs,
            column := (if c = ch_lf then 0 else column l + 1),
            token := (if skp then [] else token l @ [c])\<rparr>)"

definition mark_end :: "TSLexer \<Rightarrow> TSLexer" where
  "mark_end l = l\<lparr>marked := Some (token l)\<rparr>"

definition get_column :: "TSLexer \<Rightarrow> nat" where
  "get_column l = column l"

definition lexer_eof :: "TSLexer \<Rightarrow> bool" where
  "lexer_eof l = (input l = [])"

text \<open>The three static helpers of scanner.c (lines 24-30 and 98-100).\<close>

definition advance :: "TSLexer \<Rightarrow> TSLexer" where
  "advance l = lexer_advance l False"

definition skip :: "TSLexer \<Rightarrow> TSLexer" where
  "skip l = lexer_advance l True"

definition is_eof :: "TSLexer \<Rightarrow> bool" where
  "is_eof l = lexer_eof l"

subsection \<open>Creation\<close>

text \<open>
  \<open>tree_sitter_kukicha_external_scanner_create\<close> (lines 32-43), when the allocation
  succeeds: depth 1, every array entry 0, nothing owed.
\<close>

definition create :: Scanner where
  "create = \<lparr>indent_stack = replicate MAX_INDENT_DEPTH 0, indent_depth = 1, pending_dedents = 0\<rparr>"

subsection \<open>Array access\<close>

text \<open>
  \<open>indent_stack\<close> has exactly \<open>MAX_INDENT_DEPTH\<close> entries. C leaves an access
  outside the array undefined; the model returns \<open>None\<close> there, and every function
  that reads or writes the array passes that on. The index is an \<open>int\<close> because
  \<open>indent_depth - 1\<close> is computed after integer promotion, so depth 0 gives index -1.
\<close>

definition stack_get :: "Scanner \<Rightarrow> int \<Rightarrow> 16 word option" where
  "stack_get s i =
     (if 0 \<le> i \<and> i < int MAX_INDENT_DEPTH then Some (indent_stack s ! nat i) else None)"

definition stack_set :: "Scanner \<Rightarrow> int \<Rightarrow> 16 word \<Rightarrow> Scanner option" where
  "stack_set s i w =
     (if 0 \<le> i \<and> i < int MAX_INDENT_DEPTH
      then Some (s\<lparr>indent_stack := (indent_stack s)[nat i := w]\<rparr>) else None)"

subsection \<open>The loops of the scan function\<close>

text \<open>Lines 125-132: count the leading blanks of a line, a space as 1 and a tab as 4.\<close>

function count_indent :: "16 word \<Rightarrow> TSLexer \<Rightarrow> 16 word \<times> TSLexer" where
  "count_indent indent l =
     (if \<not> is_eof l \<and> (lookahead l = ch_space \<or> lookahead l = ch_tab)
      then count_indent (if lookahead l = ch_space then indent + 1 else indent + 4) (skip l)
      else (indent, l))"
  by pat_completeness auto
termination
  by (relation "measure (\<lambda>(indent, l). length (input l))")
     (auto simp: is_eof_def lexer_eof_def skip_def lexer_advance_def split: list.splits)

declare count_indent.simps [simp del]

text \<open>Lines 149-151: skip the rest of a comment line, up to its terminator.\<close>

function skip_to_eol :: "TSLexer \<Rightarrow> TSLexer" where
  "skip_to_eol l =
     (if \<not> is_eof l \<and> lookahead l \<noteq> ch_lf \<and> lookahead l \<noteq> ch_cr
      then skip_to_eol (skip l) else l)"
  by pat_completeness auto
termination
  by (relation "measure (\<lambda>l. length (input l))")
     (auto simp: is_eof_def lexer_eof_def skip_def lexer_advance_def split: list.splits)

declare skip_to_eol.simps [simp del]

text \<open>Lines 148-159: a comment line with its terminator.\<close>

definition skip_comment_line :: "TSLexer \<Rightarrow> TSLexer" where
  "skip_comment_line l =
     (let l1 = skip_to_eol l in
      if lookahead l1 = ch_lf \<or> lookahead l1 = ch_cr
      then (let l2 = skip l1 in if lookahead l2 = ch_lf then skip l2 else l2)
      else l1)"

lemma input_skip_le: "length (input (skip l)) \<le> length (input l)"
  by (simp add: skip_def lexer_advance_def split: list.splits)

lemma input_skip_less: "input l \<noteq> [] \<Longrightarrow> length (input (skip l)) < length (input l)"
  by (simp add: skip_def lexer_advance_def split: list.splits)

lemma lookahead_nonzero_input: "lookahead l \<noteq> 0 \<Longrightarrow> input l \<noteq> []"
  by (auto simp: lookahead_def)

lemma input_count_indent_le: "length (input (snd (count_indent indent l))) \<le> length (input l)"
proof (induction indent l rule: count_indent.induct)
  case (1 indent l)
  show ?case
  proof (cases "\<not> is_eof l \<and> (lookahead l = ch_space \<or> lookahead l = ch_tab)")
    case True
    have "count_indent indent l =
          count_indent (if lookahead l = ch_space then indent + 1 else indent + 4) (skip l)"
      using True by (subst count_indent.simps) auto
    then have "length (input (snd (count_indent indent l))) \<le> length (input (skip l))"
      using "1.IH" [OF True] by simp
    also have "\<dots> \<le> length (input l)" by (rule input_skip_le)
    finally show ?thesis .
  next
    case False
    have "count_indent indent l = (indent, l)"
      using False by (subst count_indent.simps) auto
    then show ?thesis by simp
  qed
qed

lemma input_skip_to_eol_le: "length (input (skip_to_eol l)) \<le> length (input l)"
proof (induction l rule: skip_to_eol.induct)
  case (1 l)
  show ?case
  proof (cases "\<not> is_eof l \<and> lookahead l \<noteq> ch_lf \<and> lookahead l \<noteq> ch_cr")
    case True
    have "skip_to_eol l = skip_to_eol (skip l)"
      using True by (subst skip_to_eol.simps) auto
    then have "length (input (skip_to_eol l)) \<le> length (input (skip l))"
      using "1.IH" [OF True] by simp
    also have "\<dots> \<le> length (input l)" by (rule input_skip_le)
    finally show ?thesis .
  next
    case False
    have "skip_to_eol l = l"
      using False by (subst skip_to_eol.simps) auto
    then show ?thesis by simp
  qed
qed

lemma input_skip_comment_line_less:
  assumes "lookahead l = ch_hash"
  shows "length (input (skip_comment_line l)) < length (input l)"
proof -
  have ne: "input l \<noteq> []" using assms by (auto simp: lookahead_def)
  have step: "skip_to_eol l = skip_to_eol (skip l)"
    using assms ne by (subst skip_to_eol.simps) (simp add: is_eof_def lexer_eof_def)
  have "length (input (skip_to_eol l)) < length (input l)"
    using input_skip_to_eol_le [of "skip l"] input_skip_less [OF ne] step by simp
  moreover have "length (input (skip_comment_line l)) \<le> length (input (skip_to_eol l))"
    using input_skip_le [of "skip_to_eol l"] input_skip_le [of "skip (skip_to_eol l)"]
    by (auto simp: skip_comment_line_def Let_def)
  ultimately show ?thesis by simp
qed

text \<open>
  Lines 121-159: the head of the \<open>while (true)\<close> loop. Its only back edges are the
  three \<open>continue\<close> statements, after a blank line ended by a line feed, after a blank
  line ended by a carriage return, and after a comment line; the function recurses
  exactly there. It returns the width measured on the line where the loop goes on to
  line 161, and the cursor at that point.
\<close>

function measure_line :: "TSLexer \<Rightarrow> 16 word \<times> TSLexer" where
  "measure_line l =
     (let (indent, l1) = count_indent 0 l in
      if lookahead l1 = ch_lf then measure_line (skip l1)
      else if lookahead l1 = ch_cr then
        (let l2 = skip l1 in
         if lookahead l2 = ch_lf then measure_line (skip l2) else measure_line l2)
      else if lookahead l1 = ch_hash then measure_line (skip_comment_line l1)
      else (indent, l1))"
  by pat_completeness auto
termination
proof (relation "measure (\<lambda>l. length (input l))", goal_cases)
  case 1
  show ?case by simp
next
  case (2 l x indent l1)
  then have l1: "l1 = snd (count_indent 0 l)" by (metis snd_conv)
  have la: "lookahead l1 = ch_lf" using 2 by blast
  have ne: "input l1 \<noteq> []" using la by (auto simp: lookahead_def)
  have "length (input (skip l1)) < length (input l1)" by (rule input_skip_less [OF ne])
  moreover have "length (input l1) \<le> length (input l)"
    unfolding l1 by (rule input_count_indent_le)
  ultimately show ?case by simp
next
  case (3 l x indent l1 l2)
  then have l1: "l1 = snd (count_indent 0 l)" by (metis snd_conv)
  have la: "lookahead l1 = ch_cr" using 3 by blast
  have l2: "l2 = skip l1" using 3 by blast
  have ne: "input l1 \<noteq> []" using la by (auto simp: lookahead_def)
  have "length (input (skip l1)) < length (input l1)" by (rule input_skip_less [OF ne])
  moreover have "length (input (skip (skip l1))) \<le> length (input (skip l1))"
    by (rule input_skip_le)
  moreover have "length (input l1) \<le> length (input l)"
    unfolding l1 by (rule input_count_indent_le)
  ultimately show ?case unfolding l2 by simp
next
  case (4 l x indent l1 l2)
  then have l1: "l1 = snd (count_indent 0 l)" by (metis snd_conv)
  have la: "lookahead l1 = ch_cr" using 4 by blast
  have l2: "l2 = skip l1" using 4 by blast
  have ne: "input l1 \<noteq> []" using la by (auto simp: lookahead_def)
  have "length (input (skip l1)) < length (input l1)" by (rule input_skip_less [OF ne])
  moreover have "length (input l1) \<le> length (input l)"
    unfolding l1 by (rule input_count_indent_le)
  ultimately show ?case unfolding l2 by simp
next
  case (5 l x indent l1)
  then have l1: "l1 = snd (count_indent 0 l)" by (metis snd_conv)
  have la: "lookahead l1 = ch_hash" using 5 by blast
  have "length (input (skip_comment_line l1)) < length (input l1)"
    using la by (rule input_skip_comment_line_less)
  moreover have "length (input l1) \<le> length (input l)"
    unfolding l1 by (rule input_count_indent_le)
  ultimately show ?case by simp
qed

declare measure_line.simps [simp del]

text \<open>Lines 207-209: skip blanks before a line terminator.\<close>

function skip_blanks :: "TSLexer \<Rightarrow> TSLexer" where
  "skip_blanks l =
     (if lookahead l = ch_space \<or> lookahead l = ch_tab then skip_blanks (skip l) else l)"
  by pat_completeness auto
termination
  by (relation "measure (\<lambda>l. length (input l))")
     (auto simp: lookahead_def skip_def lexer_advance_def split: list.splits)

declare skip_blanks.simps [simp del]

text \<open>
  Lines 186-190: pop every level wider than the measured width, counting the pops. The
  array is read only when the depth exceeds 1, as the \<open>&&\<close> of the source does.
\<close>

function pop_levels :: "Scanner \<Rightarrow> 16 word \<Rightarrow> 16 word \<Rightarrow> (Scanner \<times> 16 word) option" where
  "pop_levels s indent dedent_count =
     (if 1 < indent_depth s then
        (case stack_get s (uint (indent_depth s) - 1) of
           None \<Rightarrow> None
         | Some top_width \<Rightarrow>
             if indent < top_width
             then pop_levels (s\<lparr>indent_depth := indent_depth s - 1\<rparr>) indent (dedent_count + 1)
             else Some (s, dedent_count))
      else Some (s, dedent_count))"
  by pat_completeness auto
termination
proof (relation "measure (\<lambda>(s, indent, dedent_count). unat (indent_depth s))", goal_cases)
  case 1
  show ?case by simp
next
  case (2 s indent dedent_count top_width)
  then have "indent_depth s \<noteq> 0" by auto
  then have "unat (indent_depth s - 1) < unat (indent_depth s)"
    by (simp add: unat_minus_one unat_gt_0)
  then show ?case by simp
qed

declare pop_levels.simps [simp del]

subsection \<open>The scan function\<close>

text \<open>
  Lines 204-236: newline recognition. It never touches the scanner, so it returns only
  the verdict and the cursor.
\<close>

definition scan_newline :: "TSLexer \<Rightarrow> valid_symbols \<Rightarrow> bool \<times> TSLexer" where
  "scan_newline l valid =
     (if valid NEWLINE then
        (let l1 = skip_blanks l in
         if lookahead l1 = ch_lf then
           (let l2 = advance l1;
                l3 = (if lookahead l2 = ch_cr then advance l2 else l2)
            in (True, l3\<lparr>result_symbol := NEWLINE\<rparr>))
         else if lookahead l1 = ch_cr then
           (let l2 = advance l1;
                l3 = (if lookahead l2 = ch_lf then advance l2 else l2)
            in (True, l3\<lparr>result_symbol := NEWLINE\<rparr>))
         else if is_eof l1 then (True, l1\<lparr>result_symbol := NEWLINE\<rparr>)
         else (False, l1))
      else (False, l))"

text \<open>
  Lines 119-202: the analysis at the start of a line, entered at column 0 when INDENT or
  DEDENT is requested. After \<open>measure_line\<close> the source either returns (lines 162-169,
  176-182, 192-196) or leaves the loop by \<open>break\<close> and goes on to newline recognition.
\<close>

definition scan_line_start :: "Scanner \<Rightarrow> TSLexer \<Rightarrow> valid_symbols \<Rightarrow> (bool \<times> Scanner \<times> TSLexer) option" where
  "scan_line_start s l valid =
     (let (indent, l1) = measure_line l in
      if is_eof l1 then
        (if 1 < indent_depth s \<and> valid DEDENT
         then Some (True, s\<lparr>indent_depth := indent_depth s - 1\<rparr>, l1\<lparr>result_symbol := DEDENT\<rparr>)
         else Some (False, s, l1))
      else
        (let l2 = mark_end l1 in
         case stack_get s (uint (indent_depth s) - 1) of
           None \<Rightarrow> None
         | Some current_indent \<Rightarrow>
             if current_indent < indent \<and> valid INDENT then
               (if unat (indent_depth s) < MAX_INDENT_DEPTH then
                  (case stack_set s (uint (indent_depth s)) indent of
                     None \<Rightarrow> None
                   | Some s1 \<Rightarrow>
                       Some (True, s1\<lparr>indent_depth := indent_depth s + 1\<rparr>,
                             l2\<lparr>result_symbol := INDENT\<rparr>))
                else Some (True, s, l2\<lparr>result_symbol := INDENT\<rparr>))
             else if indent < current_indent \<and> valid DEDENT then
               (case pop_levels s indent 0 of
                  None \<Rightarrow> None
                | Some (s1, dedent_count) \<Rightarrow>
                    if 0 < dedent_count
                    then Some (True, s1\<lparr>pending_dedents := dedent_count - 1\<rparr>,
                               l2\<lparr>result_symbol := DEDENT\<rparr>)
                    else (case scan_newline l2 valid of (r, l3) \<Rightarrow> Some (r, s1, l3)))
             else (case scan_newline l2 valid of (r, l3) \<Rightarrow> Some (r, s, l3))))"

text \<open>
  \<open>tree_sitter_kukicha_external_scanner_scan\<close> (lines 102-237). The result is the
  returned \<open>bool\<close>, the scanner and the cursor after the call, or \<open>None\<close> when the
  call would access the array out of bounds.
\<close>

definition scan :: "Scanner \<Rightarrow> TSLexer \<Rightarrow> valid_symbols \<Rightarrow> (bool \<times> Scanner \<times> TSLexer) option" where
  "scan s l valid =
     (if 0 < pending_dedents s \<and> valid DEDENT
      then Some (True, s\<lparr>pending_dedents := pending_dedents s - 1\<rparr>, l\<lparr>result_symbol := DEDENT\<rparr>)
      else if get_column l = 0 \<and> (valid INDENT \<or> valid DEDENT)
      then scan_line_start s l valid
      else (case scan_newline l valid of (r, l1) \<Rightarrow> Some (r, s, l1)))"

subsection \<open>Sequences of calls\<close>

text \<open>
  A sequence of calls of the scan function on one scanner. Every call brings the cursor
  it is made at and the kinds the grammar requests there; the result of a call is the
  kind in \<open>result_symbol\<close> when the call returns \<open>true\<close>, and no match otherwise.
  The function returns the results in order and the scanner after the last call.
\<close>

fun scan_calls :: "Scanner \<Rightarrow> (TSLexer \<times> valid_symbols) list \<Rightarrow> (TokenType option list \<times> Scanner) option" where
  "scan_calls s [] = Some ([], s)"
| "scan_calls s ((l, valid) # calls) =
     (case scan s l valid of
        None \<Rightarrow> None
      | Some (r, s1, l1) \<Rightarrow>
          (case scan_calls s1 calls of
             None \<Rightarrow> None
           | Some (rs, s2) \<Rightarrow> Some ((if r then Some (result_symbol l1) else None) # rs, s2)))"

definition all_kinds :: valid_symbols where
  "all_kinds = (\<lambda>k. True)"

definition only_dedent :: valid_symbols where
  "only_dedent = (\<lambda>k. k = DEDENT)"

subsection \<open>Driving the scanner over a document\<close>

text \<open>
  Modelled from the spec: the grammar engine that calls the scanner is not among the
  sources. Section 2 of the spec gives its control flow: it calls the scan function
  wherever a structural token could stand, takes the token on a match, and on "no match"
  lets the grammar's ordinary tokenizer take over. \<open>cursor_at\<close> is the cursor at the
  start of a token (nothing taken, nothing marked, \<open>result_symbol\<close> at its initial
  value 0, the first kind of the enumeration), \<open>start_token\<close> begins the next token
  where the last one ended, and \<open>consume_content\<close> is the ordinary tokenizer: from
  the point where the declined call stopped looking (it has passed only blanks, blank
  lines and comment lines), it takes the content of the line up to its terminator.
\<close>

definition cursor_at :: "32 word list \<Rightarrow> nat \<Rightarrow> TSLexer" where
  "cursor_at cs c = \<lparr>input = cs, column = c, token = [], marked = None, result_symbol = INDENT\<rparr>"

definition start_token :: "TSLexer \<Rightarrow> TSLexer" where
  "start_token l = cursor_at (input l) (column l)"

function consume_content :: "TSLexer \<Rightarrow> TSLexer" where
  "consume_content l =
     (if \<not> is_eof l \<and> lookahead l \<noteq> ch_lf \<and> lookahead l \<noteq> ch_cr
      then consume_content (advance l) else l)"
  by pat_completeness auto
termination
  by (relation "measure (\<lambda>l. length (input l))")
     (auto simp: is_eof_def lexer_eof_def advance_def lexer_advance_def split: list.splits)

declare consume_content.simps [simp del]

text \<open>
  The driver requests all three kinds at every call and stops when the cursor is at the
  end of the input with the scanner at depth 1. It returns the tokens emitted, in order,
  each with the depth the scanner had at the call that emitted it, and the final
  scanner. A run may go on for ever (at the end of an input that does not end in a line
  feed, with a block still open, every call answers NEWLINE), so the driver takes fuel:
  \<open>None\<close> when the fuel runs out, or when a call would leave the array.
\<close>

fun drive :: "nat \<Rightarrow> Scanner \<Rightarrow> TSLexer \<Rightarrow> ((TokenType \<times> 16 word) list \<times> Scanner) option" where
  "drive 0 s l = None"
| "drive (Suc fuel) s l =
     (if is_eof l \<and> indent_depth s = 1 then Some ([], s)
      else
        (case scan s l all_kinds of
           None \<Rightarrow> None
         | Some (r, s1, l1) \<Rightarrow>
             if r then
               (case drive fuel s1 (start_token l1) of
                  None \<Rightarrow> None
                | Some (ts, s2) \<Rightarrow> Some ((result_symbol l1, indent_depth s) # ts, s2))
             else drive fuel s1 (start_token (consume_content l1))))"

definition tokens :: "(TokenType \<times> 16 word) list \<Rightarrow> TokenType list" where
  "tokens ts = map fst ts"

subsection \<open>The state codec\<close>

text \<open>
  \<open>tree_sitter_kukicha_external_scanner_serialize\<close> (lines 49-66). The buffer has
  \<open>TREE_SITTER_SERIALIZATION_BUFFER_SIZE\<close> bytes, a constant of the missing header
  \<open>tree_sitter/parser.h\<close>; it is the parameter \<open>bufsize\<close>. The result is the bytes
  written, whose number is the value the source returns. A write outside the buffer
  is \<open>None\<close>, as is a read outside the array.
\<close>

function serialize_loop :: "nat \<Rightarrow> Scanner \<Rightarrow> 16 word \<Rightarrow> 8 word list \<Rightarrow> 8 word list option" where
  "serialize_loop bufsize s i buffer =
     (if i < indent_depth s \<and> length buffer < bufsize then
        (case stack_get s (uint i) of
           None \<Rightarrow> None
         | Some w \<Rightarrow>
             if length buffer + 1 < bufsize
             then serialize_loop bufsize s (i + 1)
                    (buffer @ [ucast (w AND 0xFF), ucast (drop_bit 8 w AND 0xFF)])
             else None)
      else Some buffer)"
  by pat_completeness auto
termination
proof (relation "measure (\<lambda>(bufsize, s, i, buffer). unat (indent_depth s) - unat i)", goal_cases)
  case 1
  show ?case by simp
next
  case (2 bufsize s i buffer w)
  then have lt: "unat i < unat (indent_depth s)" by (simp add: word_less_nat_alt)
  moreover have "unat (indent_depth s) < 65536"
    using unsigned_less [of "indent_depth s", where ?'a = nat] by simp
  ultimately have "unat (i + 1) = unat i + 1" by (simp add: unat_word_ariths)
  with lt show ?case by simp
qed

declare serialize_loop.simps [simp del]

definition serialize :: "nat \<Rightarrow> Scanner \<Rightarrow> 8 word list option" where
  "serialize bufsize s =
     (if bufsize < 2 then None
      else serialize_loop bufsize s 0 [ucast (pending_dedents s), ucast (indent_depth s)])"

text \<open>
  \<open>tree_sitter_kukicha_external_scanner_deserialize\<close> (lines 68-96). The list is the
  buffer and its length the \<open>length\<close> argument; the scanner is the payload that the
  function overwrites. A read outside the buffer is \<open>None\<close>.
\<close>

definition buffer_get :: "8 word list \<Rightarrow> nat \<Rightarrow> 8 word option" where
  "buffer_get buffer pos = (if pos < length buffer then Some (buffer ! pos) else None)"

function deserialize_loop :: "Scanner \<Rightarrow> 8 word list \<Rightarrow> 16 word \<Rightarrow> nat \<Rightarrow> Scanner option" where
  "deserialize_loop s buffer i pos =
     (if i < indent_depth s \<and> pos + 1 < length buffer then
        (case buffer_get buffer pos of
           None \<Rightarrow> None
         | Some lo \<Rightarrow>
             (case buffer_get buffer (pos + 1) of
                None \<Rightarrow> None
              | Some hi \<Rightarrow>
                  (case stack_set s (uint i) (ucast lo OR push_bit 8 (ucast hi)) of
                     None \<Rightarrow> None
                   | Some s1 \<Rightarrow> deserialize_loop s1 buffer (i + 1) (pos + 2))))
      else Some s)"
  by pat_completeness auto
termination
proof (relation "measure (\<lambda>(s, buffer, i, pos). unat (indent_depth s) - unat i)", goal_cases)
  case 1
  show ?case by simp
next
  case (2 s buffer i pos lo hi s1)
  then have d: "indent_depth s1 = indent_depth s"
    by (auto simp: stack_set_def split: if_splits)
  from 2 have lt: "unat i < unat (indent_depth s)" by (simp add: word_less_nat_alt)
  moreover have "unat (indent_depth s) < 65536"
    using unsigned_less [of "indent_depth s", where ?'a = nat] by simp
  ultimately have "unat (i + 1) = unat i + 1" by (simp add: unat_word_ariths)
  with lt d show ?case by simp
qed

declare deserialize_loop.simps [simp del]

definition deserialize :: "Scanner \<Rightarrow> 8 word list \<Rightarrow> Scanner option" where
  "deserialize s buffer =
     (case stack_set (s\<lparr>pending_dedents := 0, indent_depth := 1\<rparr>) 0 0 of
        None \<Rightarrow> None
      | Some s0 \<Rightarrow>
          if length buffer = 0 then Some s0
          else
            (case buffer_get buffer 0 of
               None \<Rightarrow> None
             | Some b0 \<Rightarrow>
                 (let s1 = s0\<lparr>pending_dedents := ucast b0\<rparr> in
                  if 1 \<ge> length buffer then Some s1
                  else
                    (case buffer_get buffer 1 of
                       None \<Rightarrow> None
                     | Some b1 \<Rightarrow>
                         (let s2 = s1\<lparr>indent_depth := ucast b1\<rparr>;
                              s3 = (if MAX_INDENT_DEPTH < unat (indent_depth s2)
                                    then s2\<lparr>indent_depth := of_nat MAX_INDENT_DEPTH\<rparr> else s2)
                          in deserialize_loop s3 buffer 0 2)))))"

section \<open>Notions used in the statements\<close>

subsection \<open>Scanner states\<close>

text \<open>
  The bounds that every reachable scanner satisfies: the depth between 1 and the
  capacity, and at most the capacity less 2 dedents owed.
\<close>

definition scanner_inv :: "Scanner \<Rightarrow> bool" where
  "scanner_inv s \<longleftrightarrow>
     1 \<le> unat (indent_depth s) \<and> unat (indent_depth s) \<le> MAX_INDENT_DEPTH \<and>
     unat (pending_dedents s) + 2 \<le> MAX_INDENT_DEPTH"


subsection \<open>Line terminators\<close>

text \<open>
  The terminator forms, in the words of the amended claim: nothing at the end of the
  input, a line feed alone or followed by a carriage return, a carriage return alone
  or followed by a line feed. \<open>None\<close> when the text starts with any other character.
\<close>

fun spec_terminator :: "32 word list \<Rightarrow> 32 word list option" where
  "spec_terminator [] = Some []"
| "spec_terminator [c] = (if c = ch_lf \<or> c = ch_cr then Some [c] else None)"
| "spec_terminator (c # d # cs) =
     (if c = ch_lf then (if d = ch_cr then Some [ch_lf, ch_cr] else Some [ch_lf])
      else if c = ch_cr then (if d = ch_lf then Some [ch_cr, ch_lf] else Some [ch_cr])
      else None)"

subsection \<open>Bytes of the codec\<close>

text \<open>A stack entry is two bytes in the buffer, the low byte first.\<close>

definition decode16 :: "8 word \<Rightarrow> 8 word \<Rightarrow> 16 word" where
  "decode16 lo hi = ucast lo OR push_bit 8 (ucast hi)"

definition encode16 :: "16 word \<Rightarrow> 8 word list" where
  "encode16 w = [ucast (w AND 0xFF), ucast (drop_bit 8 w AND 0xFF)]"

subsection \<open>Documents\<close>

text \<open>
  A line of a document is its leading blanks, its content and a line feed. Blanks are
  spaces and tabs; their width counts a space as 1 and a tab as 4, as the scanner does.
  Content starts with a character that is neither a blank, nor a line terminator, nor
  the comment sign, and holds no line terminator.
\<close>

definition blank :: "32 word \<Rightarrow> bool" where
  "blank c \<longleftrightarrow> c = ch_space \<or> c = ch_tab"

fun width_of :: "32 word list \<Rightarrow> nat" where
  "width_of [] = 0"
| "width_of (c # cs) = (if c = ch_space then 1 else 4) + width_of cs"

definition content_line :: "32 word list \<Rightarrow> bool" where
  "content_line c \<longleftrightarrow>
     c \<noteq> [] \<and> hd c \<notin> {ch_space, ch_tab, ch_lf, ch_cr, ch_hash} \<and>
     ch_lf \<notin> set c \<and> ch_cr \<notin> set c"

definition text_line :: "32 word list \<Rightarrow> 32 word list \<Rightarrow> 32 word list" where
  "text_line b c = b @ c @ [ch_lf]"





subsection \<open>Cursors and runs\<close>




section \<open>Properties\<close>

subsection \<open>Word arithmetic of the counters\<close>

lemma unat_depth_pred: "1 < (d :: 16 word) \<Longrightarrow> unat (d - 1) = unat d - 1 \<and> 1 < unat d"
  by (metis unat_minus_one unat_1 word_less_nat_alt less_numeral_extra(3) unat_0 word_gt_0
      not_less_iff_gr_or_eq less_trans zero_less_one)

lemma unat_count_succ: "unat (c :: 16 word) + 1 < 65536 \<Longrightarrow> unat (c + 1) = unat c + 1"
  by (simp add: unat_word_ariths)

lemma unat_u16_bound: "unat (w :: 16 word) < 65536"
  using unsigned_less [of w, where ?'a = nat] by simp

subsection \<open>The pop loop\<close>

lemma pop_levels_count:
  "pop_levels s indent c = Some (s', c') \<Longrightarrow> unat c + unat (indent_depth s) < 65536 \<Longrightarrow>
   s' = s\<lparr>indent_depth := indent_depth s'\<rparr> \<and> unat (indent_depth s') \<le> unat (indent_depth s) \<and>
   1 \<le> unat (indent_depth s') + (1 - unat (indent_depth s)) \<and>
   unat c' + unat (indent_depth s') = unat c + unat (indent_depth s)"
proof (induction s indent c rule: pop_levels.induct)
  case (1 s indent c)
  show ?case
  proof (cases "1 < indent_depth s")
    case False
    then have "pop_levels s indent c = Some (s, c)"
      by (subst pop_levels.simps) simp
    with "1.prems" show ?thesis by simp
  next
    case True
    note d = unat_depth_pred [OF True]
    show ?thesis
    proof (cases "stack_get s (uint (indent_depth s) - 1)")
      case None
      then have "pop_levels s indent c = None"
        using True by (subst pop_levels.simps) simp
      with "1.prems" show ?thesis by simp
    next
      case (Some w)
      show ?thesis
      proof (cases "indent < w")
        case False
        then have "pop_levels s indent c = Some (s, c)"
          using True Some by (subst pop_levels.simps) simp
        with "1.prems" d show ?thesis by simp
      next
        case lt: True
        let ?s1 = "s\<lparr>indent_depth := indent_depth s - 1\<rparr>"
        have eq: "pop_levels s indent c = pop_levels ?s1 indent (c + 1)"
          using True Some lt by (subst pop_levels.simps) simp
        have c1: "unat (c + 1) = unat c + 1"
          using "1.prems"(2) d by (intro unat_count_succ) simp
        have bound: "unat (c + 1) + unat (indent_depth ?s1) < 65536"
          using "1.prems"(2) d c1 by simp
        have run: "pop_levels ?s1 indent (c + 1) = Some (s', c')"
          using "1.prems"(1) eq by simp
        from "1.IH" [OF True Some lt run bound] d c1
        show ?thesis by auto
      qed
    qed
  qed
qed

lemma pop_levels_none_popped:
  assumes "pop_levels s indent 0 = Some (s1, c)" and "\<not> 0 < c"
  shows "s1 = s"
proof -
  have b: "unat (0 :: 16 word) + unat (indent_depth s) < 65536"
    using unat_u16_bound [of "indent_depth s"] by simp
  from pop_levels_count [OF assms(1) b] assms(2)
  have "s1 = s\<lparr>indent_depth := indent_depth s1\<rparr>"
    and "unat (indent_depth s1) = unat (indent_depth s)"
    by (auto simp: word_gt_0)
  then show ?thesis
    by (metis Scanner.surjective Scanner.update_convs(2) unat_eq_nat_uint word_unat_eq_iff)
qed

lemma scan_line_start_false: "scan_line_start s l valid = Some (False, s', l') \<Longrightarrow> s' = s"
  by (auto simp: scan_line_start_def Let_def split: prod.splits if_splits option.splits
           dest: pop_levels_none_popped)

subsection \<open>The scan function on well-formed scanners\<close>




subsection \<open>Calls that find no match\<close>

lemma scan_false_state: "scan s l valid = Some (False, s', l') \<Longrightarrow> s' = s"
  by (auto simp: scan_def split: if_splits prod.splits dest: scan_line_start_false)

subsection \<open>Claims about single calls\<close>

text \<open>
  C1. Whenever a call of the scan function returns "no match", the scanner after the
  call (array, depth and owed dedents) is the scanner before the call. This holds for
  every scanner, every cursor and every set of requested kinds.
\<close>

theorem scan_no_match_keeps_state:
  "scan s l valid = Some (False, s', l') \<Longrightarrow> s' = s"
  by (rule scan_false_state)

theorem scan_no_match_keeps_state_witness:
  "\<exists>l'. scan create (cursor_at [120, 10] 0) all_kinds = Some (False, create, l')"
proof -
  have run: "scan create (cursor_at [120, 10] 0) all_kinds
             = Some (False, create, (cursor_at [120, 10] 0)\<lparr>marked := Some []\<rparr>)"
    by code_simp
  from scan_no_match_keeps_state [OF run] run show ?thesis by blast
qed

text \<open>
  C9. When dedents are owed and DEDENT is among the requested kinds, the call returns
  DEDENT and takes exactly one from \<open>pending_dedents\<close>; the array and the depth are as
  before, and the cursor is as before but for \<open>result_symbol\<close>: no character is
  consumed, and the outcome does not depend on the input.
\<close>

theorem scan_owed_dedent:
  "0 < pending_dedents s \<Longrightarrow> valid DEDENT \<Longrightarrow>
   scan s l valid
   = Some (True, s\<lparr>pending_dedents := pending_dedents s - 1\<rparr>, l\<lparr>result_symbol := DEDENT\<rparr>)"
  by (simp add: scan_def)

theorem scan_owed_dedent_witness:
  "scan (create\<lparr>pending_dedents := 2\<rparr>) (cursor_at [32, 120] 0) only_dedent
   = Some (True, create\<lparr>pending_dedents := 1\<rparr>,
           (cursor_at [32, 120] 0)\<lparr>result_symbol := DEDENT\<rparr>)"
proof -
  have p: "0 < pending_dedents (create\<lparr>pending_dedents := 2\<rparr>)" by simp
  have v: "only_dedent DEDENT" by (simp add: only_dedent_def)
  from scan_owed_dedent [of "create\<lparr>pending_dedents := 2\<rparr>" only_dedent "cursor_at [32, 120] 0", OF p v]
  show ?thesis by simp
qed

subsection \<open>Calls at the end of the input\<close>

lemma count_indent_stop:
  "is_eof l \<or> (lookahead l \<noteq> ch_space \<and> lookahead l \<noteq> ch_tab) \<Longrightarrow> count_indent indent l = (indent, l)"
  by (subst count_indent.simps) auto

lemma lookahead_eof: "is_eof l \<Longrightarrow> lookahead l = 0"
  by (simp add: is_eof_def lexer_eof_def lookahead_def)

lemma measure_line_eof: "is_eof l \<Longrightarrow> measure_line l = (0, l)"
  by (subst measure_line.simps) (simp add: count_indent_stop lookahead_eof)

lemma scan_at_eof:
  assumes "is_eof l" "get_column l = 0" "pending_dedents s = 0"
  shows "scan s l only_dedent =
         (if 1 < indent_depth s
          then Some (True, s\<lparr>indent_depth := indent_depth s - 1\<rparr>, l\<lparr>result_symbol := DEDENT\<rparr>)
          else Some (False, s, l))"
  using assms by (simp add: scan_def scan_line_start_def measure_line_eof only_dedent_def)

lemma eof_dedents_chain:
  "unat (indent_depth s) = Suc n \<Longrightarrow> pending_dedents s = 0 \<Longrightarrow> length calls = Suc n \<Longrightarrow>
   \<forall>c \<in> set calls. is_eof (fst c) \<and> get_column (fst c) = 0 \<and> snd c = only_dedent \<Longrightarrow>
   scan_calls s calls = Some (replicate n (Some DEDENT) @ [None], s\<lparr>indent_depth := 1\<rparr>)"
proof (induction n arbitrary: s calls)
  case 0
  then obtain l where calls: "calls = [(l, only_dedent)]" and l: "is_eof l" "get_column l = 0"
    by (cases calls) (auto simp: prod_eq_iff)
  have d: "indent_depth s = 1" using 0(1) by (metis unat_1 word_unat_eq_iff One_nat_def)
  then have "scan s l only_dedent = Some (False, s, l)"
    using scan_at_eof [OF l "0.prems"(2)] by simp
  moreover have "s\<lparr>indent_depth := 1\<rparr> = s"
    using d by (metis Scanner.surjective Scanner.update_convs(2))
  ultimately show ?case by (simp add: calls)
next
  case (Suc n)
  then obtain l rest where calls: "calls = (l, only_dedent) # rest"
    and l: "is_eof l" "get_column l = 0"
    by (cases calls) (auto simp: prod_eq_iff)
  have gt: "1 < indent_depth s" using Suc.prems(1) by (simp add: word_less_nat_alt)
  let ?s1 = "s\<lparr>indent_depth := indent_depth s - 1\<rparr>"
  have step: "scan s l only_dedent = Some (True, ?s1, l\<lparr>result_symbol := DEDENT\<rparr>)"
    using scan_at_eof [OF l Suc.prems(2)] gt by simp
  have d1: "unat (indent_depth ?s1) = Suc n"
    using unat_depth_pred [OF gt] Suc.prems(1) by simp
  have "scan_calls ?s1 rest = Some (replicate n (Some DEDENT) @ [None], ?s1\<lparr>indent_depth := 1\<rparr>)"
    using Suc.IH [OF d1, of rest] Suc.prems calls by simp
  then show ?case using step by (simp add: calls)
qed

text \<open>
  C5. Take a scanner of depth \<open>d > 1\<close> that owes no dedent, and \<open>d\<close> successive
  calls, each made with the cursor at the end of the input in column 0 and with only
  DEDENT requested. The first \<open>d - 1\<close> calls answer DEDENT and the next one answers
  "no match"; the scanner is then at depth 1.
\<close>

theorem dedents_at_eof:
  assumes "1 < indent_depth s" and "pending_dedents s = 0"
    and "length calls = unat (indent_depth s)"
    and "\<forall>c \<in> set calls. is_eof (fst c) \<and> get_column (fst c) = 0 \<and> snd c = only_dedent"
  shows "scan_calls s calls
         = Some (replicate (unat (indent_depth s) - 1) (Some DEDENT) @ [None], s\<lparr>indent_depth := 1\<rparr>)"
proof -
  obtain n where n: "unat (indent_depth s) = Suc n"
    using unat_depth_pred [OF assms(1)] by (cases "unat (indent_depth s)") auto
  from eof_dedents_chain [OF n assms(2) _ assms(4)] assms(3) n show ?thesis by simp
qed

theorem dedents_at_eof_witness:
  "scan_calls (create\<lparr>indent_depth := 3\<rparr>)
     [(cursor_at [] 0, only_dedent), (cursor_at [] 0, only_dedent), (cursor_at [] 0, only_dedent)]
   = Some ([Some DEDENT, Some DEDENT, None], create)"
proof -
  let ?s = "create\<lparr>indent_depth := 3\<rparr>"
  let ?calls = "[(cursor_at [] 0, only_dedent), (cursor_at [] 0, only_dedent), (cursor_at [] 0, only_dedent)]"
  have 1: "1 < indent_depth ?s" by simp
  have 2: "pending_dedents ?s = 0" by (simp add: create_def)
  have 3: "length ?calls = unat (indent_depth ?s)" by simp
  have 4: "\<forall>c \<in> set ?calls. is_eof (fst c) \<and> get_column (fst c) = 0 \<and> snd c = only_dedent"
    by (simp add: is_eof_def lexer_eof_def get_column_def cursor_at_def)
  have r: "replicate (unat (indent_depth ?s) - 1) (Some DEDENT) @ [None]
           = [Some DEDENT, Some DEDENT, None]"
    by code_simp
  from dedents_at_eof [OF 1 2 3 4] show ?thesis unfolding r by (simp add: create_def)
qed

subsection \<open>A full stack\<close>

text \<open>
  C10. Take a scanner whose depth is the capacity, and a call in column 0 with INDENT
  requested that gets as far as looking at the input (no owed dedent is served first).
  If the call finds a content line whose measured width exceeds the top entry of the
  array, it returns INDENT and the scanner is exactly as before: nothing is pushed.
\<close>

theorem indent_at_capacity:
  assumes "unat (indent_depth s) = MAX_INDENT_DEPTH"
    and "get_column l = 0" and "valid INDENT"
    and "\<not> (0 < pending_dedents s \<and> valid DEDENT)"
    and "measure_line l = (width, l1)" and "\<not> is_eof l1"
    and "indent_stack s ! (MAX_INDENT_DEPTH - 1) < width"
  shows "scan s l valid = Some (True, s, (mark_end l1)\<lparr>result_symbol := INDENT\<rparr>)"
proof -
  have "uint (indent_depth s) - 1 = int (MAX_INDENT_DEPTH - 1)"
    using assms(1) by (simp add: MAX_INDENT_DEPTH_def uint_nat)
  then have "stack_get s (uint (indent_depth s) - 1) = Some (indent_stack s ! (MAX_INDENT_DEPTH - 1))"
    by (simp add: stack_get_def MAX_INDENT_DEPTH_def)
  then show ?thesis
    using assms by (auto simp: scan_def scan_line_start_def Let_def)
qed

theorem indent_at_capacity_witness:
  "scan (create\<lparr>indent_depth := 100\<rparr>) (cursor_at [32, 120] 0) all_kinds
   = Some (True, create\<lparr>indent_depth := 100\<rparr>,
           \<lparr>input = [120], column = 1, token = [], marked = Some [], result_symbol = INDENT\<rparr>)"
proof -
  let ?s = "create\<lparr>indent_depth := 100\<rparr>"
  let ?l = "cursor_at [32, 120] 0"
  let ?l1 = "\<lparr>input = [120], column = 1, token = [], marked = None, result_symbol = INDENT\<rparr>"
  have 1: "unat (indent_depth ?s) = MAX_INDENT_DEPTH" by (simp add: MAX_INDENT_DEPTH_def)
  have 2: "get_column ?l = 0" by (simp add: get_column_def cursor_at_def)
  have 3: "all_kinds INDENT" by (simp add: all_kinds_def)
  have 4: "\<not> (0 < pending_dedents ?s \<and> all_kinds DEDENT)" by (simp add: create_def)
  have 5: "measure_line ?l = (1, ?l1)" by code_simp
  have 6: "\<not> is_eof ?l1" by (simp add: is_eof_def lexer_eof_def)
  have 7: "indent_stack ?s ! (MAX_INDENT_DEPTH - 1) < 1"
    by (simp add: create_def MAX_INDENT_DEPTH_def)
  from indent_at_capacity [OF 1 2 3 4 5 6 7] show ?thesis by (simp add: mark_end_def)
qed

subsection \<open>Bounds on reachable scanners\<close>

lemma stack_set_fields:
  "stack_set s i w = Some s1 \<Longrightarrow>
   indent_depth s1 = indent_depth s \<and> pending_dedents s1 = pending_dedents s"
  by (auto simp: stack_set_def split: if_splits)

lemma unat_pending_pred: "0 < (p :: 16 word) \<Longrightarrow> unat (p - 1) = unat p - 1"
  by (simp add: unat_minus_one word_gt_0)

lemma scan_line_start_inv:
  assumes "scan_line_start s l valid = Some (r, s', l')" and "scanner_inv s"
  shows "scanner_inv s'"
proof -
  obtain indent l1 where m: "measure_line l = (indent, l1)" by (cases "measure_line l")
  show ?thesis
  proof (cases "is_eof l1")
    case True
    then show ?thesis
      using assms m unat_depth_pred [of "indent_depth s"]
      by (auto simp: scan_line_start_def scanner_inv_def split: if_splits)
  next
    case False
    then obtain cur where cur: "stack_get s (uint (indent_depth s) - 1) = Some cur"
      using assms m by (auto simp: scan_line_start_def Let_def split: option.splits)
    show ?thesis
    proof (cases "cur < indent \<and> valid INDENT")
      case True
      show ?thesis
      proof (cases "unat (indent_depth s) < MAX_INDENT_DEPTH")
        case lt: True
        then have "unat (indent_depth s + 1) = unat (indent_depth s) + 1"
          by (intro unat_count_succ) (simp add: MAX_INDENT_DEPTH_def)
        then show ?thesis
          using assms m False cur True lt
          by (auto simp: scan_line_start_def Let_def scanner_inv_def split: option.splits
                   dest!: stack_set_fields)
      next
        case ge: False
        then show ?thesis
          using assms m False cur True
          by (auto simp: scan_line_start_def Let_def split: option.splits)
      qed
    next
      case nind: False
      show ?thesis
      proof (cases "indent < cur \<and> valid DEDENT")
        case False
        then show ?thesis
          using assms m \<open>\<not> is_eof l1\<close> cur nind
          by (auto simp: scan_line_start_def Let_def split: option.splits prod.splits)
      next
        case True
        then obtain s1 c where p: "pop_levels s indent 0 = Some (s1, c)"
          using assms m \<open>\<not> is_eof l1\<close> cur nind
          by (auto simp: scan_line_start_def Let_def split: option.splits prod.splits)
        have b: "unat (0 :: 16 word) + unat (indent_depth s) < 65536"
          using unat_u16_bound [of "indent_depth s"] by simp
        note pc = pop_levels_count [OF p b]
        show ?thesis
        proof (cases "0 < c")
          case False
          then have "s1 = s" using p by (rule pop_levels_none_popped [rotated])
          then show ?thesis
            using assms m \<open>\<not> is_eof l1\<close> cur nind True p False
            by (auto simp: scan_line_start_def Let_def split: option.splits prod.splits)
        next
          case pos: True
          have s': "s' = s1\<lparr>pending_dedents := c - 1\<rparr>"
            using assms m \<open>\<not> is_eof l1\<close> cur nind True p pos
            by (auto simp: scan_line_start_def Let_def split: option.splits prod.splits)
          have "unat (c - 1) = unat c - 1" using pos by (rule unat_pending_pred)
          then show ?thesis
            using pc assms(2) unfolding s' scanner_inv_def by auto
        qed
      qed
    qed
  qed
qed

lemma scan_inv:
  assumes "scan s l valid = Some (r, s', l')" and "scanner_inv s"
  shows "scanner_inv s'"
proof (cases "0 < pending_dedents s \<and> valid DEDENT")
  case True
  then have "s' = s\<lparr>pending_dedents := pending_dedents s - 1\<rparr>"
    using assms(1) by (auto simp: scan_def)
  then show ?thesis
    using assms(2) True unat_pending_pred [of "pending_dedents s"]
    by (auto simp: scanner_inv_def)
next
  case False
  then show ?thesis
    using assms scan_line_start_inv
    by (auto simp: scan_def split: if_splits prod.splits)
qed

lemma scan_calls_inv:
  "scan_calls s calls = Some (rs, s') \<Longrightarrow> scanner_inv s \<Longrightarrow> scanner_inv s'"
proof (induction calls arbitrary: s rs)
  case Nil
  then show ?case by simp
next
  case (Cons c calls)
  obtain l valid where c: "c = (l, valid)" by (cases c)
  from Cons.prems(1) obtain r s1 l1 rs1 where
    st: "scan s l valid = Some (r, s1, l1)" and rest: "scan_calls s1 calls = Some (rs1, s')"
    by (auto simp: c split: option.splits prod.splits)
  from scan_inv [OF st Cons.prems(2)] Cons.IH [OF rest] show ?case by simp
qed

lemma create_inv: "scanner_inv create"
  by (simp add: scanner_inv_def create_def MAX_INDENT_DEPTH_def)

text \<open>
  C3, as the claim states it, fails. In the document of the four lines \<open>a\<close>,
  \<open> b\<close>, \<open>  c\<close> and \<open>d\<close>, the calls at the starts of the second, third and
  fourth line, with every kind requested, answer INDENT, INDENT and DEDENT; the last
  call pops two levels at once, so the scanner is left at depth 1 with one dedent
  owed, and 1 is not less than 1.
\<close>

theorem pending_below_depth_counterexample:
  "\<exists>rs s. scan_calls create
            [(cursor_at [32, 98, 10, 32, 32, 99, 10, 100] 0, all_kinds),
             (cursor_at [32, 32, 99, 10, 100] 0, all_kinds),
             (cursor_at [100] 0, all_kinds)] = Some (rs, s)
          \<and> indent_depth s = 1 \<and> pending_dedents s = 1
          \<and> \<not> pending_dedents s < indent_depth s"
proof -
  have "scan_calls create
          [(cursor_at [32, 98, 10, 32, 32, 99, 10, 100] 0, all_kinds),
           (cursor_at [32, 32, 99, 10, 100] 0, all_kinds),
           (cursor_at [100] 0, all_kinds)]
        = Some ([Some INDENT, Some INDENT, Some DEDENT],
                create\<lparr>indent_stack := (indent_stack create)[1 := 1, 2 := 2],
                       pending_dedents := 1\<rparr>)"
    by code_simp
  then show ?thesis by (simp add: create_def)
qed

text \<open>
  C3, amended. In every scanner reachable from the fresh one by a sequence of calls,
  whatever the cursors and the requested kinds, \<open>pending_dedents\<close> is at most the
  capacity less 2 and the depth lies between 1 and the capacity.
\<close>

theorem reachable_bounds:
  "scan_calls create calls = Some (rs, s) \<Longrightarrow>
   unat (pending_dedents s) + 2 \<le> MAX_INDENT_DEPTH \<and>
   1 \<le> unat (indent_depth s) \<and> unat (indent_depth s) \<le> MAX_INDENT_DEPTH"
  using scan_calls_inv [OF _ create_inv] by (auto simp: scanner_inv_def)

theorem reachable_bounds_witness:
  "\<exists>rs s. scan_calls create
            [(cursor_at [32, 120] 0, all_kinds), (cursor_at [120] 0, only_dedent)] = Some (rs, s)
          \<and> unat (pending_dedents s) + 2 \<le> MAX_INDENT_DEPTH
          \<and> 1 \<le> unat (indent_depth s) \<and> unat (indent_depth s) \<le> MAX_INDENT_DEPTH"
proof -
  have run: "scan_calls create
               [(cursor_at [32, 120] 0, all_kinds), (cursor_at [120] 0, only_dedent)]
             = Some ([Some INDENT, Some DEDENT],
                     create\<lparr>indent_stack := (indent_stack create)[1 := 1]\<rparr>)"
    by code_simp
  from reachable_bounds [OF run] run show ?thesis by blast
qed

subsection \<open>Newline recognition\<close>

text \<open>
  A call that serves no owed dedent and does not enter the analysis at the start of a
  line goes straight to newline recognition. A call that leaves that analysis by
  \<open>break\<close> reaches it as well (see \<open>scan_line_start\<close>).
\<close>

lemma scan_reaches_newline:
  assumes "\<not> (0 < pending_dedents s \<and> valid DEDENT)"
    and "\<not> (get_column l = 0 \<and> (valid INDENT \<or> valid DEDENT))"
  shows "scan s l valid = Some (fst (scan_newline l valid), s, snd (scan_newline l valid))"
  using assms by (auto simp: scan_def split: prod.splits)

text \<open>
  C7, as the claim states it, fails. After the content of a line, with a line feed,
  a carriage return and the letter b ahead, the call answers NEWLINE and takes both
  the line feed and the carriage return into the token: the characters consumed are
  none of a lone line feed, a lone carriage return, a carriage return followed by a
  line feed, or nothing.
\<close>

theorem newline_terminator_counterexample:
  "\<exists>l'. scan create (cursor_at [ch_lf, ch_cr, 98] 1) all_kinds = Some (True, create, l')
        \<and> result_symbol l' = NEWLINE \<and> token l' = [ch_lf, ch_cr] \<and> input l' = [98]
        \<and> token l' \<notin> {[], [ch_lf], [ch_cr], [ch_cr, ch_lf]}"
proof -
  have "scan create (cursor_at [ch_lf, ch_cr, 98] 1) all_kinds
        = Some (True, create,
                \<lparr>input = [98], column = 1, token = [ch_lf, ch_cr], marked = None,
                 result_symbol = NEWLINE\<rparr>)"
    by code_simp
  then show ?thesis by simp
qed

text \<open>
  C7, amended. In every call that reaches newline recognition with NEWLINE requested,
  the scanner skips blanks and then answers NEWLINE exactly when the input has ended or
  the next character is a line feed or a carriage return. The characters it takes into
  the token are then exactly the terminator standing there, which is one of: nothing
  (end of input), a line feed, a line feed followed by a carriage return, a carriage
  return, a carriage return followed by a line feed. Otherwise it answers "no match"
  with the cursor after the blanks.
\<close>

theorem newline_recognition:
  assumes "valid NEWLINE" and "scan_newline l valid = (r, l')"
  shows "(r \<longleftrightarrow> is_eof (skip_blanks l) \<or> lookahead (skip_blanks l) = ch_lf
                 \<or> lookahead (skip_blanks l) = ch_cr) \<and>
         (case spec_terminator (input (skip_blanks l)) of
            None \<Rightarrow> \<not> r \<and> l' = skip_blanks l
          | Some t \<Rightarrow>
              r \<and> result_symbol l' = NEWLINE \<and>
              t \<in> {[], [ch_lf], [ch_lf, ch_cr], [ch_cr], [ch_cr, ch_lf]} \<and>
              input (skip_blanks l) = t @ input l' \<and> token l' = token (skip_blanks l) @ t)"
proof -
  obtain l1 where l1: "l1 = skip_blanks l" by simp
  show ?thesis
  proof (cases "input l1" rule: spec_terminator.cases)
    case 1
    then show ?thesis using assms l1
      by (auto simp: scan_newline_def Let_def lookahead_def is_eof_def lexer_eof_def)
  next
    case (2 c)
    then show ?thesis using assms l1
      by (auto simp: scan_newline_def Let_def lookahead_def is_eof_def lexer_eof_def
              advance_def lexer_advance_def)
  next
    case (3 c d cs)
    then show ?thesis using assms l1
      by (auto simp: scan_newline_def Let_def lookahead_def is_eof_def lexer_eof_def
              advance_def lexer_advance_def)
  qed
qed

theorem newline_recognition_witness:
  "\<exists>l'. scan_newline (cursor_at [ch_space, ch_cr, ch_lf, 98] 1) all_kinds = (True, l')
        \<and> result_symbol l' = NEWLINE \<and> token l' = [ch_cr, ch_lf] \<and> input l' = [98]"
proof -
  let ?l = "cursor_at [ch_space, ch_cr, ch_lf, 98] 1"
  let ?l' = "\<lparr>input = [98], column = 0, token = [ch_cr, ch_lf], marked = None,
              result_symbol = NEWLINE\<rparr>"
  have v: "all_kinds NEWLINE" by (simp add: all_kinds_def)
  have run: "scan_newline ?l all_kinds = (True, ?l')" by code_simp
  have t: "spec_terminator (input (skip_blanks ?l)) = Some [ch_cr, ch_lf]" by code_simp
  have k: "token (skip_blanks ?l) = []" by code_simp
  from newline_recognition [OF v run] have
    "result_symbol ?l' = NEWLINE \<and> input (skip_blanks ?l) = [ch_cr, ch_lf] @ input ?l'
     \<and> token ?l' = token (skip_blanks ?l) @ [ch_cr, ch_lf]"
    unfolding t by simp
  with run k show ?thesis by auto
qed

subsection \<open>The state codec\<close>

lemma ff_mask: "(0xFF :: 16 word) = mask 8"
  by (simp add: mask_eq_exp_minus_1)

lemma decode16_encode:
  "decode16 (ucast (w AND 0xFF)) (ucast (drop_bit 8 w AND 0xFF)) = (w :: 16 word)"
  unfolding decode16_def ff_mask
  by (rule bit_word_eqI) (auto simp: bit_simps)

lemma ucast_u8_u16_id:
  assumes "unat (w :: 16 word) \<le> 255"
  shows "ucast (ucast w :: 8 word) = w"
proof -
  have "unat (ucast (ucast w :: 8 word) :: 16 word) = take_bit 8 (unat w)"
    by (simp add: unsigned_ucast_eq unsigned_take_bit_eq)
  also have "\<dots> = unat w" using assms by (simp add: take_bit_nat_eq_self)
  finally show ?thesis by (simp only: word_unat_eq_iff)
qed

lemma unat_ucast_u8: "unat (ucast (b :: 8 word) :: 16 word) = unat b"
proof -
  have "unat b < 256" using unsigned_less [of b, where ?'a = nat] by simp
  then show ?thesis by (simp add: unsigned_ucast_eq take_bit_nat_eq_self)
qed

lemma unat_index_succ:
  "i < (d :: 16 word) \<Longrightarrow> unat (i + 1) = unat i + 1 \<and> unat i < unat d"
  using unat_u16_bound [of d] by (simp add: word_less_nat_alt unat_word_ariths)

lemma deserialize_loop_result:
  assumes "unat (indent_depth s) \<le> MAX_INDENT_DEPTH"
    and "length (indent_stack s) = MAX_INDENT_DEPTH"
  shows "\<exists>s'. deserialize_loop s buffer i pos = Some s' \<and>
           indent_depth s' = indent_depth s \<and> pending_dedents s' = pending_dedents s \<and>
           length (indent_stack s') = MAX_INDENT_DEPTH \<and>
           (\<forall>k < MAX_INDENT_DEPTH. indent_stack s' ! k =
              (if unat i \<le> k \<and> k < unat (indent_depth s) \<and> pos + 2 * (k - unat i) + 1 < length buffer
               then decode16 (buffer ! (pos + 2 * (k - unat i))) (buffer ! (pos + 2 * (k - unat i) + 1))
               else indent_stack s ! k))"
  using assms
proof (induction s buffer i pos rule: deserialize_loop.induct)
  case (1 s buffer i pos)
  show ?case
  proof (cases "i < indent_depth s \<and> pos + 1 < length buffer")
    case False
    then have eq: "deserialize_loop s buffer i pos = Some s"
      by (subst deserialize_loop.simps) auto
    have "\<And>k. unat i \<le> k \<Longrightarrow> k < unat (indent_depth s) \<Longrightarrow> \<not> pos + 2 * (k - unat i) + 1 < length buffer"
      using False by (auto simp: word_less_nat_alt)
    then show ?thesis using eq "1.prems" by auto
  next
    case True
    note ix = unat_index_succ [of i "indent_depth s"]
    have lo: "buffer_get buffer pos = Some (buffer ! pos)"
      and hi: "buffer_get buffer (pos + 1) = Some (buffer ! (pos + 1))"
      using True by (auto simp: buffer_get_def)
    let ?v = "decode16 (buffer ! pos) (buffer ! (pos + 1))"
    let ?s1 = "s\<lparr>indent_stack := (indent_stack s)[unat i := ?v]\<rparr>"
    have inb: "unat i < MAX_INDENT_DEPTH" using True ix "1.prems"(1) by simp
    have st: "stack_set s (uint i) (ucast (buffer ! pos) OR push_bit 8 (ucast (buffer ! (pos + 1)))) = Some ?s1"
    proof -
      have "nat (uint i) = unat i" by simp
      moreover have "uint i < int MAX_INDENT_DEPTH" using inb by (simp only: uint_nat of_nat_less_iff)
      ultimately show ?thesis by (simp add: stack_set_def decode16_def)
    qed
    have eq: "deserialize_loop s buffer i pos = deserialize_loop ?s1 buffer (i + 1) (pos + 2)"
      using True lo hi st by (subst deserialize_loop.simps) simp
    have p1: "unat (indent_depth ?s1) \<le> MAX_INDENT_DEPTH" using "1.prems"(1) by simp
    have p2: "length (indent_stack ?s1) = MAX_INDENT_DEPTH" using "1.prems"(2) by simp
    from "1.IH" [OF True lo hi st p1 p2]
    obtain s' where r: "deserialize_loop ?s1 buffer (i + 1) (pos + 2) = Some s'"
      and d1: "indent_depth s' = indent_depth ?s1" and p1': "pending_dedents s' = pending_dedents ?s1"
      and len: "length (indent_stack s') = MAX_INDENT_DEPTH"
      and ent1: "\<forall>k < MAX_INDENT_DEPTH. indent_stack s' ! k =
              (if unat (i + 1) \<le> k \<and> k < unat (indent_depth ?s1) \<and> pos + 2 + 2 * (k - unat (i + 1)) + 1 < length buffer
               then decode16 (buffer ! (pos + 2 + 2 * (k - unat (i + 1)))) (buffer ! (pos + 2 + 2 * (k - unat (i + 1)) + 1))
               else indent_stack ?s1 ! k)"
      by blast
    have d: "indent_depth s' = indent_depth s" and p: "pending_dedents s' = pending_dedents s"
      using d1 p1' by simp_all
    have ent: "indent_stack s' ! k =
              (if unat i + 1 \<le> k \<and> k < unat (indent_depth s) \<and> pos + 2 + 2 * (k - (unat i + 1)) + 1 < length buffer
               then decode16 (buffer ! (pos + 2 + 2 * (k - (unat i + 1)))) (buffer ! (pos + 2 + 2 * (k - (unat i + 1)) + 1))
               else (indent_stack s)[unat i := ?v] ! k)" if "k < MAX_INDENT_DEPTH" for k
      using ent1 [rule_format, OF that] ix True by simp
    have "indent_stack s' ! k =
              (if unat i \<le> k \<and> k < unat (indent_depth s) \<and> pos + 2 * (k - unat i) + 1 < length buffer
               then decode16 (buffer ! (pos + 2 * (k - unat i))) (buffer ! (pos + 2 * (k - unat i) + 1))
               else indent_stack s ! k)" if k: "k < MAX_INDENT_DEPTH" for k
    proof -
      consider "k < unat i" | "k = unat i" | "unat i < k" by linarith
      then show ?thesis
      proof cases
        case 1
        then show ?thesis using ent [OF k] by simp
      next
        case 2
        then show ?thesis using ent [OF k] k ix True "1.prems"(2) by simp
      next
        case 3
        then have a: "pos + 2 + 2 * (k - (unat i + 1)) = pos + 2 * (k - unat i)"
          by simp
        show ?thesis using ent [OF k] 3 unfolding a by simp
      qed
    qed
    then show ?thesis using eq r d p len by simp
  qed
qed

lemma nth_concat_encode16:
  "k < length ws \<Longrightarrow>
   concat (map encode16 ws) ! (2 * k) = ucast (ws ! k AND 0xFF) \<and>
   concat (map encode16 ws) ! (2 * k + 1) = ucast (drop_bit 8 (ws ! k) AND 0xFF)"
proof (induction ws arbitrary: k)
  case Nil
  then show ?case by simp
next
  case (Cons w ws)
  show ?case
  proof (cases k)
    case 0
    then show ?thesis by (simp add: encode16_def)
  next
    case (Suc j)
    then have "j < length ws" using Cons.prems by simp
    from Cons.IH [OF this] show ?thesis by (simp add: Suc encode16_def)
  qed
qed

lemma length_concat_encode16: "length (concat (map encode16 ws)) = 2 * length ws"
  by (induction ws) (simp_all add: encode16_def)

lemma stack_get_in_range:
  "unat i < MAX_INDENT_DEPTH \<Longrightarrow> stack_get s (uint i) = Some (indent_stack s ! unat i)"
proof -
  assume a: "unat i < MAX_INDENT_DEPTH"
  have "nat (uint i) = unat i" by simp
  moreover have "uint i < int MAX_INDENT_DEPTH" using a by (simp only: uint_nat of_nat_less_iff)
  ultimately show ?thesis by (simp add: stack_get_def)
qed

lemma serialize_loop_result:
  assumes "unat (indent_depth s) \<le> MAX_INDENT_DEPTH" and "unat i \<le> unat (indent_depth s)"
    and "length buffer + 2 * (unat (indent_depth s) - unat i) \<le> bufsize"
  shows "serialize_loop bufsize s i buffer
         = Some (buffer @ concat (map encode16 (map (\<lambda>k. indent_stack s ! k) [unat i ..< unat (indent_depth s)])))"
  using assms
proof (induction bufsize s i buffer rule: serialize_loop.induct)
  case (1 bufsize s i buffer)
  show ?case
  proof (cases "i < indent_depth s")
    case False
    then have "unat i = unat (indent_depth s)" using "1.prems"(2) by (simp add: word_less_nat_alt)
    moreover have "serialize_loop bufsize s i buffer = Some buffer"
      using False by (subst serialize_loop.simps) simp
    ultimately show ?thesis by simp
  next
    case True
    note ix = unat_index_succ [OF True]
    have room: "length buffer < bufsize" "length buffer + 1 < bufsize"
      using "1.prems"(3) ix by linarith+
    have g: "stack_get s (uint i) = Some (indent_stack s ! unat i)"
      using ix "1.prems"(1) by (intro stack_get_in_range) simp
    let ?b1 = "buffer @ [ucast (indent_stack s ! unat i AND 0xFF), ucast (drop_bit 8 (indent_stack s ! unat i) AND 0xFF)]"
    have eq: "serialize_loop bufsize s i buffer = serialize_loop bufsize s (i + 1) ?b1"
      using True room g by (subst serialize_loop.simps) simp
    have c: "i < indent_depth s \<and> length buffer < bufsize" using True room by simp
    have p2: "unat (i + 1) \<le> unat (indent_depth s)" using ix by simp
    have p3: "length ?b1 + 2 * (unat (indent_depth s) - unat (i + 1)) \<le> bufsize"
    proof -
      have "length ?b1 = length buffer + 2" by simp
      moreover have "unat (indent_depth s) - unat (i + 1) = unat (indent_depth s) - unat i - 1"
        using ix by simp
      ultimately show ?thesis using "1.prems"(3) ix by linarith
    qed
    have up: "[unat i ..< unat (indent_depth s)] = unat i # [unat (i + 1) ..< unat (indent_depth s)]"
      using ix by (simp add: upt_conv_Cons)
    from "1.IH" [OF c g room(2) "1.prems"(1) p2 p3] show ?thesis
      unfolding eq up by (simp add: encode16_def)
  qed
qed

lemma deserialize_two_or_more:
  assumes "length (indent_stack s) = MAX_INDENT_DEPTH"
  shows "\<exists>s'. deserialize s (b0 # b1 # rest) = Some s' \<and>
           pending_dedents s' = ucast b0 \<and>
           indent_depth s' = (if MAX_INDENT_DEPTH < unat b1 then of_nat MAX_INDENT_DEPTH else ucast b1) \<and>
           length (indent_stack s') = MAX_INDENT_DEPTH \<and>
           (\<forall>k < MAX_INDENT_DEPTH. indent_stack s' ! k =
              (if k < unat (indent_depth s') \<and> 2 * k + 1 < length rest
               then decode16 (rest ! (2 * k)) (rest ! (2 * k + 1))
               else (indent_stack s)[0 := 0] ! k))"
proof -
  let ?s0 = "s\<lparr>pending_dedents := 0, indent_depth := 1, indent_stack := (indent_stack s)[0 := 0]\<rparr>"
  let ?d = "if MAX_INDENT_DEPTH < unat b1 then of_nat MAX_INDENT_DEPTH else (ucast b1 :: 16 word)"
  let ?s3 = "?s0\<lparr>pending_dedents := ucast b0, indent_depth := ?d\<rparr>"
  have s0: "stack_set (s\<lparr>pending_dedents := 0, indent_depth := 1\<rparr>) 0 0 = Some ?s0"
    by (simp add: stack_set_def MAX_INDENT_DEPTH_def)
  have des: "deserialize s (b0 # b1 # rest) = deserialize_loop ?s3 (b0 # b1 # rest) 0 2"
    unfolding deserialize_def s0 by (simp add: buffer_get_def Let_def unat_ucast_u8)
  have dle: "unat (indent_depth ?s3) \<le> MAX_INDENT_DEPTH"
    by (simp add: unat_ucast_u8 MAX_INDENT_DEPTH_def)
  have len: "length (indent_stack ?s3) = MAX_INDENT_DEPTH" using assms by simp
  from deserialize_loop_result [OF dle len, of "b0 # b1 # rest" 0 2]
  obtain s' where r: "deserialize_loop ?s3 (b0 # b1 # rest) 0 2 = Some s'"
    and d1: "indent_depth s' = indent_depth ?s3" and p1: "pending_dedents s' = pending_dedents ?s3"
    and l1: "length (indent_stack s') = MAX_INDENT_DEPTH"
    and ent1: "\<forall>k < MAX_INDENT_DEPTH. indent_stack s' ! k =
              (if unat (0 :: 16 word) \<le> k \<and> k < unat (indent_depth ?s3) \<and> 2 + 2 * (k - unat (0 :: 16 word)) + 1 < length (b0 # b1 # rest)
               then decode16 ((b0 # b1 # rest) ! (2 + 2 * (k - unat (0 :: 16 word)))) ((b0 # b1 # rest) ! (2 + 2 * (k - unat (0 :: 16 word)) + 1))
               else indent_stack ?s3 ! k)"
    by blast
  have d: "indent_depth s' = ?d" using d1 by simp
  have p: "pending_dedents s' = ucast b0" using p1 by simp
  have ent: "indent_stack s' ! k =
              (if k < unat (indent_depth s') \<and> 2 * k + 1 < length rest
               then decode16 (rest ! (2 * k)) (rest ! (2 * k + 1))
               else (indent_stack s)[0 := 0] ! k)" if "k < MAX_INDENT_DEPTH" for k
    using ent1 [rule_format, OF that] d by simp
  show ?thesis using des r d p l1 ent by simp
qed

text \<open>
  C8. For a payload that is a scanner (its array has \<open>MAX_INDENT_DEPTH\<close> entries) and
  every buffer, deserialize returns a scanner and reads nothing outside the buffer or
  the array. From the empty buffer the result has nothing owed, depth 1 and the stack
  \<open>[0]\<close>. From a one-byte buffer it has that byte as \<open>pending_dedents\<close>, depth 1 and
  the stack \<open>[0]\<close>. From a longer buffer \<open>pending_dedents\<close> is the first byte and the
  depth is the second byte, or the capacity if that byte is larger; entry \<open>k\<close> of the
  array is restored from bytes \<open>2 + 2k\<close> and \<open>3 + 2k\<close> exactly when \<open>k\<close> is below
  the depth and both bytes are in the buffer, and every other entry is what the reset
  left: 0 at index 0, the payload's old value elsewhere.
\<close>

theorem deserialize_defensive:
  assumes "length (indent_stack s) = MAX_INDENT_DEPTH"
  shows "\<exists>s'. deserialize s buffer = Some s' \<and>
           (buffer = [] \<longrightarrow>
              pending_dedents s' = 0 \<and> indent_depth s' = 1 \<and>
              take (unat (indent_depth s')) (indent_stack s') = [0]) \<and>
           (\<forall>b0. buffer = [b0] \<longrightarrow>
              pending_dedents s' = ucast b0 \<and> indent_depth s' = 1 \<and>
              take (unat (indent_depth s')) (indent_stack s') = [0]) \<and>
           (\<forall>b0 b1 rest. buffer = b0 # b1 # rest \<longrightarrow>
              pending_dedents s' = ucast b0 \<and>
              indent_depth s' = (if MAX_INDENT_DEPTH < unat b1 then of_nat MAX_INDENT_DEPTH else ucast b1) \<and>
              (\<forall>k < MAX_INDENT_DEPTH. indent_stack s' ! k =
                 (if k < unat (indent_depth s') \<and> 2 * k + 1 < length rest
                  then decode16 (rest ! (2 * k)) (rest ! (2 * k + 1))
                  else (indent_stack s)[0 := 0] ! k)))"
proof -
  let ?s0 = "s\<lparr>pending_dedents := 0, indent_depth := 1, indent_stack := (indent_stack s)[0 := 0]\<rparr>"
  have s0: "stack_set (s\<lparr>pending_dedents := 0, indent_depth := 1\<rparr>) 0 0 = Some ?s0"
    by (simp add: stack_set_def MAX_INDENT_DEPTH_def)
  have tk: "take (Suc 0) ((indent_stack s)[0 := 0]) = [0]"
    using assms by (cases "indent_stack s") (simp_all add: MAX_INDENT_DEPTH_def)
  show ?thesis
  proof (cases buffer)
    case Nil
    then show ?thesis unfolding deserialize_def s0 using tk by simp
  next
    case (Cons b0 bs)
    show ?thesis
    proof (cases bs)
      case Nil
      then show ?thesis
        unfolding deserialize_def s0 using tk Cons by (simp add: buffer_get_def)
    next
      case (Cons b1 rest)
      from deserialize_two_or_more [OF assms, of b0 b1 rest]
      show ?thesis unfolding \<open>buffer = b0 # bs\<close> Cons by auto
    qed
  qed
qed

theorem deserialize_defensive_witness:
  "\<exists>s'. deserialize (create\<lparr>indent_stack := replicate 100 5\<rparr>) [2, 200, 7, 1, 9] = Some s' \<and>
        pending_dedents s' = 2 \<and> indent_depth s' = 100 \<and>
        indent_stack s' ! 0 = 263 \<and> indent_stack s' ! 1 = 5"
proof -
  let ?s = "create\<lparr>indent_stack := replicate 100 5\<rparr>"
  have len: "length (indent_stack ?s) = MAX_INDENT_DEPTH" by (simp add: MAX_INDENT_DEPTH_def)
  from deserialize_defensive [OF len, of "[2, 200, 7, 1, 9]"]
  obtain s' where r: "deserialize ?s [2, 200, 7, 1, 9] = Some s'"
    and p: "pending_dedents s' = ucast (2 :: 8 word)"
    and d: "indent_depth s' = (if MAX_INDENT_DEPTH < unat (200 :: 8 word) then of_nat MAX_INDENT_DEPTH else ucast (200 :: 8 word))"
    and ent: "\<forall>k < MAX_INDENT_DEPTH. indent_stack s' ! k =
                 (if k < unat (indent_depth s') \<and> 2 * k + 1 < length [7, 1, 9 :: 8 word]
                  then decode16 ([7, 1, 9] ! (2 * k)) ([7, 1, 9] ! (2 * k + 1))
                  else (indent_stack ?s)[0 := 0] ! k)"
    by blast
  have d': "indent_depth s' = 100" using d by (simp add: MAX_INDENT_DEPTH_def)
  have e0: "indent_stack s' ! 0 = 263"
    using ent [rule_format, of 0] d' by (simp add: MAX_INDENT_DEPTH_def decode16_def)
  have e1: "indent_stack s' ! 1 = 5"
    using ent [rule_format, of 1] d' by (simp add: MAX_INDENT_DEPTH_def)
  from r p d' e0 e1 show ?thesis by simp
qed

text \<open>
  C2. Take a scanner whose depth is at most the capacity and whose \<open>pending_dedents\<close>
  is at most 255, and a buffer with room for the capacity (\<open>2 * MAX_INDENT_DEPTH + 2\<close>
  bytes; the buffer of the library has 1024). Serializing it and deserializing the
  bytes into any payload gives a scanner with the same \<open>pending_dedents\<close>, the same
  depth and the same array entries below the depth.
\<close>

theorem codec_roundtrip:
  assumes "unat (indent_depth s) \<le> MAX_INDENT_DEPTH"
    and "unat (pending_dedents s) \<le> 255"
    and "2 * MAX_INDENT_DEPTH + 2 \<le> bufsize"
    and "length (indent_stack s0) = MAX_INDENT_DEPTH"
  shows "\<exists>buffer s'. serialize bufsize s = Some buffer \<and> deserialize s0 buffer = Some s' \<and>
           pending_dedents s' = pending_dedents s \<and> indent_depth s' = indent_depth s \<and>
           (\<forall>k < unat (indent_depth s). indent_stack s' ! k = indent_stack s ! k)"
proof -
  let ?d = "unat (indent_depth s)"
  let ?ws = "map (\<lambda>k. indent_stack s ! k) [0 ..< ?d]"
  let ?rest = "concat (map encode16 ?ws)"
  let ?b0 = "ucast (pending_dedents s) :: 8 word"
  let ?b1 = "ucast (indent_depth s) :: 8 word"
  have room: "length [?b0, ?b1] + 2 * (?d - unat (0 :: 16 word)) \<le> bufsize"
    using assms(1,3) by simp
  have ser: "serialize bufsize s = Some (?b0 # ?b1 # ?rest)"
    using serialize_loop_result [OF assms(1) _ room] assms(3)
    by (simp add: serialize_def MAX_INDENT_DEPTH_def)
  from deserialize_two_or_more [OF assms(4), of ?b0 ?b1 ?rest]
  obtain s' where des: "deserialize s0 (?b0 # ?b1 # ?rest) = Some s'"
    and p: "pending_dedents s' = ucast ?b0"
    and d: "indent_depth s' = (if MAX_INDENT_DEPTH < unat ?b1 then of_nat MAX_INDENT_DEPTH else ucast ?b1)"
    and ent: "\<forall>k < MAX_INDENT_DEPTH. indent_stack s' ! k =
              (if k < unat (indent_depth s') \<and> 2 * k + 1 < length ?rest
               then decode16 (?rest ! (2 * k)) (?rest ! (2 * k + 1))
               else (indent_stack s0)[0 := 0] ! k)"
    by blast
  have d255: "?d \<le> 255" using assms(1) by (simp add: MAX_INDENT_DEPTH_def)
  have b1: "ucast ?b1 = indent_depth s" by (rule ucast_u8_u16_id [OF d255])
  have ub1: "unat ?b1 = ?d" using unat_ucast_u8 [of ?b1] b1 by simp
  have p': "pending_dedents s' = pending_dedents s"
    using p ucast_u8_u16_id [OF assms(2)] by simp
  have d': "indent_depth s' = indent_depth s"
    using d b1 ub1 assms(1) by simp
  have "indent_stack s' ! k = indent_stack s ! k" if k: "k < ?d" for k
  proof -
    have kM: "k < MAX_INDENT_DEPTH" using k assms(1) by simp
    have kl: "k < length ?ws" using k by simp
    have "length ?rest = 2 * ?d"
      by (simp only: length_concat_encode16 length_map length_upt minus_nat.diff_0)
    then have lr: "2 * k + 1 < length ?rest" using k by linarith
    have "indent_stack s' ! k = decode16 (?rest ! (2 * k)) (?rest ! (2 * k + 1))"
      using ent [rule_format, OF kM] k d' lr by simp
    also have "\<dots> = decode16 (ucast (?ws ! k AND 0xFF)) (ucast (drop_bit 8 (?ws ! k) AND 0xFF))"
      using nth_concat_encode16 [OF kl] by simp
    also have "\<dots> = ?ws ! k" by (rule decode16_encode)
    also have "\<dots> = indent_stack s ! k" using k by simp
    finally show ?thesis .
  qed
  then show ?thesis using ser des p' d' by simp
qed

theorem codec_roundtrip_witness:
  "\<exists>s'. serialize 1024 (create\<lparr>indent_stack := (indent_stack create)[1 := 4, 2 := 300],
                                 indent_depth := 3, pending_dedents := 1\<rparr>)
          = Some [1, 3, 0, 0, 4, 0, 44, 1] \<and>
        deserialize create [1, 3, 0, 0, 4, 0, 44, 1] = Some s' \<and>
        pending_dedents s' = 1 \<and> indent_depth s' = 3 \<and>
        indent_stack s' ! 0 = 0 \<and> indent_stack s' ! 1 = 4 \<and> indent_stack s' ! 2 = 300"
proof -
  let ?s = "create\<lparr>indent_stack := (indent_stack create)[1 := 4, 2 := 300],
                   indent_depth := 3, pending_dedents := 1\<rparr>"
  have 1: "unat (indent_depth ?s) \<le> MAX_INDENT_DEPTH" by (simp add: MAX_INDENT_DEPTH_def)
  have 2: "unat (pending_dedents ?s) \<le> 255" by simp
  have 3: "2 * MAX_INDENT_DEPTH + 2 \<le> (1024 :: nat)" by (simp add: MAX_INDENT_DEPTH_def)
  have 4: "length (indent_stack create) = MAX_INDENT_DEPTH" by (simp add: create_def)
  have ser: "serialize 1024 ?s = Some [1, 3, 0, 0, 4, 0, 44, 1]" by code_simp
  from codec_roundtrip [OF 1 2 3 4]
  obtain buffer s' where b: "serialize 1024 ?s = Some buffer"
    and r: "deserialize create buffer = Some s'"
    and p: "pending_dedents s' = pending_dedents ?s" and d: "indent_depth s' = indent_depth ?s"
    and ent: "\<forall>k < unat (indent_depth ?s). indent_stack s' ! k = indent_stack ?s ! k"
    by blast
  have buf: "buffer = [1, 3, 0, 0, 4, 0, 44, 1]" using b ser by simp
  have e0: "indent_stack s' ! 0 = 0" using ent [rule_format, of 0] by (simp add: create_def MAX_INDENT_DEPTH_def)
  have e1: "indent_stack s' ! 1 = 4" using ent [rule_format, of 1] by (simp add: create_def MAX_INDENT_DEPTH_def)
  have e2: "indent_stack s' ! 2 = 300" using ent [rule_format, of 2] by (simp add: create_def MAX_INDENT_DEPTH_def)
  from ser r p d e0 e1 e2 show ?thesis unfolding buf by simp
qed

subsection \<open>Driving the scanner: balance of INDENT and DEDENT\<close>

text \<open>Fuel only bounds the run: a run that ends is the same with more fuel.\<close>

lemma drive_more_fuel: "drive fuel s l = Some r \<Longrightarrow> drive (fuel + k) s l = Some r"
proof (induction fuel arbitrary: s l r)
  case 0
  then show ?case by simp
next
  case (Suc fuel)
  show ?case
  proof (cases "is_eof l \<and> indent_depth s = 1")
    case True
    then show ?thesis using Suc.prems by simp
  next
    case False
    then obtain b s1 l1 where sc: "scan s l all_kinds = Some (b, s1, l1)"
      using Suc.prems by (auto split: option.splits)
    show ?thesis
    proof (cases b)
      case True
      then obtain ts s2 where run: "drive fuel s1 (start_token l1) = Some (ts, s2)"
        and r: "r = ((result_symbol l1, indent_depth s) # ts, s2)"
        using Suc.prems False sc by (auto split: option.splits)
      from Suc.IH [OF run] show ?thesis using False sc True r by auto
    next
      case nb: False
      then have run: "drive fuel s1 (start_token (consume_content l1)) = Some r"
        using Suc.prems False sc by simp
      from Suc.IH [OF run] show ?thesis using False sc nb by auto
    qed
  qed
qed





subsection \<open>Driving the scanner: the run ends\<close>

















lemma skip_blanks_stops:
  "lookahead (skip_blanks l) \<noteq> ch_space \<and> lookahead (skip_blanks l) \<noteq> ch_tab"
proof (induction l rule: skip_blanks.induct)
  case (1 l)
  show ?case
  proof (cases "lookahead l = ch_space \<or> lookahead l = ch_tab")
    case True
    have "skip_blanks l = skip_blanks (skip l)" using True by (subst skip_blanks.simps) auto
    then show ?thesis using "1.IH" [OF True] by simp
  next
    case False
    have "skip_blanks l = l" using False by (subst skip_blanks.simps) auto
    then show ?thesis using False by simp
  qed
qed












subsection \<open>Symbolic runs: cursors on lines of blanks and content\<close>



lemma skip_blanks_content:
  "lookahead l \<noteq> ch_space \<Longrightarrow> lookahead l \<noteq> ch_tab \<Longrightarrow> skip_blanks l = l"
  by (subst skip_blanks.simps) simp

lemma scan_newline_content:
  assumes "c \<noteq> ch_space" "c \<noteq> ch_tab" "c \<noteq> ch_lf" "c \<noteq> ch_cr" and "input l = c # rest"
  shows "scan_newline l all_kinds = (False, l)"
  using assms
  by (simp add: scan_newline_def skip_blanks_content lookahead_def is_eof_def lexer_eof_def)


lemma scan_newline_lf:
  assumes "rest = [] \<or> hd rest \<noteq> ch_cr"
  shows "scan_newline (cursor_at (ch_lf # rest) col) all_kinds
         = (True, \<lparr>input = rest, column = 0, token = [ch_lf], marked = None, result_symbol = NEWLINE\<rparr>)"
  using assms
  by (cases rest)
     (simp_all add: scan_newline_def skip_blanks_content lookahead_def cursor_at_def all_kinds_def
        advance_def lexer_advance_def)

subsection \<open>A document nested deeper than the capacity\<close>






lemma scan_line_feed:
  assumes "pending_dedents s = 0" and "rest = [] \<or> hd rest \<noteq> ch_cr"
  shows "scan s (cursor_at (ch_lf # rest) (Suc c)) all_kinds
         = Some (True, s, \<lparr>input = rest, column = 0, token = [ch_lf], marked = None,
                            result_symbol = NEWLINE\<rparr>)"
  using assms(1) scan_newline_lf [OF assms(2), of "Suc c"]
  by (simp add: scan_def get_column_def cursor_at_def)

lemma start_token_simps:
  "start_token \<lparr>input = cs, column = c, token = t, marked = m, result_symbol = R\<rparr> = cursor_at cs c"
  "start_token ((mark_end (cursor_at cs c))\<lparr>result_symbol := R\<rparr>) = cursor_at cs c"
  "start_token (cursor_at cs c) = cursor_at cs c"
  by (simp_all add: start_token_def cursor_at_def mark_end_def)

lemma not_eof_cursor: "is_eof (cursor_at cs c) \<longleftrightarrow> cs = []"
  by (simp add: is_eof_def lexer_eof_def cursor_at_def)















subsection \<open>A run that never ends\<close>

text \<open>
  At the end of the input in a column other than 0, with a block open and nothing
  owed, every call answers NEWLINE and changes nothing: the run does not end, whatever
  the fuel. The document of the two lines \<open>a\<close> and \<open> b\<close>, the second without a
  line feed, comes to that point after four calls.
\<close>

lemma drive_step_none:
  assumes "scan s l all_kinds = Some (r, s1, l1)" and "\<not> (is_eof l \<and> indent_depth s = 1)"
    and "drive n s1 (if r then start_token l1 else start_token (consume_content l1)) = None"
  shows "drive (Suc n) s l = None"
  using assms by (cases r) simp_all

lemma drive_stuck_at_eof:
  "is_eof l \<Longrightarrow> column l \<noteq> 0 \<Longrightarrow> pending_dedents s = 0 \<Longrightarrow> indent_depth s \<noteq> 1 \<Longrightarrow>
   drive fuel s l = None"
proof (induction fuel arbitrary: l)
  case 0
  then show ?case by simp
next
  case (Suc fuel)
  have la: "lookahead l = 0" using Suc.prems(1) by (rule lookahead_eof)
  then have sb: "skip_blanks l = l" by (intro skip_blanks_content) simp_all
  have "scan_newline l all_kinds = (True, l\<lparr>result_symbol := NEWLINE\<rparr>)"
    using la Suc.prems(1) by (simp add: scan_newline_def sb all_kinds_def)
  then have sc: "scan s l all_kinds = Some (True, s, l\<lparr>result_symbol := NEWLINE\<rparr>)"
    using Suc.prems(2,3) by (simp add: scan_def get_column_def)
  have nxt: "is_eof (start_token (l\<lparr>result_symbol := NEWLINE\<rparr>))"
    "column (start_token (l\<lparr>result_symbol := NEWLINE\<rparr>)) \<noteq> 0"
    using Suc.prems(1,2) by (simp_all add: start_token_def cursor_at_def is_eof_def lexer_eof_def)
  have "drive fuel s (start_token (l\<lparr>result_symbol := NEWLINE\<rparr>)) = None"
    by (rule Suc.IH [OF nxt Suc.prems(3,4)])
  then show ?case using sc Suc.prems(4) by (intro drive_step_none [OF sc]) simp_all
qed

lemma open_block_never_ends:
  "drive fuel create (cursor_at [97, ch_lf, ch_space, 98] 0) = None"
proof -
  let ?S1 = "create\<lparr>indent_stack := (indent_stack create)[1 := 1], indent_depth := 2\<rparr>"
  have a: "scan create (cursor_at [97, ch_lf, ch_space, 98] 0) all_kinds
           = Some (False, create, (cursor_at [97, ch_lf, ch_space, 98] 0)\<lparr>marked := Some []\<rparr>)"
    by code_simp
  have a': "start_token (consume_content ((cursor_at [97, ch_lf, ch_space, 98] 0)\<lparr>marked := Some []\<rparr>))
            = cursor_at [ch_lf, ch_space, 98] 1"
    by code_simp
  have b: "scan create (cursor_at [ch_lf, ch_space, 98] 1) all_kinds
           = Some (True, create, \<lparr>input = [ch_space, 98], column = 0, token = [ch_lf], marked = None,
                                   result_symbol = NEWLINE\<rparr>)"
    by code_simp
  have b': "start_token \<lparr>input = [ch_space, 98], column = 0, token = [ch_lf], marked = None,
                         result_symbol = NEWLINE\<rparr> = cursor_at [ch_space, 98] 0"
    by code_simp
  have c: "scan create (cursor_at [ch_space, 98] 0) all_kinds
           = Some (True, ?S1, \<lparr>input = [98], column = 1, token = [], marked = Some [],
                                result_symbol = INDENT\<rparr>)"
    by code_simp
  have c': "start_token \<lparr>input = [98], column = 1, token = [], marked = Some [],
                         result_symbol = INDENT\<rparr> = cursor_at [98] 1"
    by code_simp
  have d: "scan ?S1 (cursor_at [98] 1) all_kinds = Some (False, ?S1, cursor_at [98] 1)"
    by code_simp
  have d': "start_token (consume_content (cursor_at [98] 1)) = cursor_at [] 2"
    by code_simp
  have go: "\<not> (is_eof (cursor_at [97, ch_lf, ch_space, 98] 0) \<and> indent_depth create = 1)"
    "\<not> (is_eof (cursor_at [ch_lf, ch_space, 98] 1) \<and> indent_depth create = 1)"
    "\<not> (is_eof (cursor_at [ch_space, 98] 0) \<and> indent_depth create = 1)"
    "\<not> (is_eof (cursor_at [98] 1) \<and> indent_depth ?S1 = 1)"
    by (simp_all add: not_eof_cursor)
  have stuck: "drive n ?S1 (cursor_at [] 2) = None" for n
    by (rule drive_stuck_at_eof)
       (simp_all add: is_eof_def lexer_eof_def cursor_at_def create_def)
  have 4: "drive (Suc n) ?S1 (cursor_at [98] 1) = None" for n
    by (rule drive_step_none [OF d go(4)]) (simp only: if_False d' stuck)
  have 3: "drive (Suc (Suc n)) create (cursor_at [ch_space, 98] 0) = None" for n
    by (rule drive_step_none [OF c go(3)]) (simp only: if_True c' 4)
  have 2: "drive (Suc (Suc (Suc n))) create (cursor_at [ch_lf, ch_space, 98] 1) = None" for n
    by (rule drive_step_none [OF b go(2)]) (simp only: if_True b' 3)
  have 1: "drive (Suc (Suc (Suc (Suc n)))) create (cursor_at [97, ch_lf, ch_space, 98] 0) = None" for n
    by (rule drive_step_none [OF a go(1)]) (simp only: if_False a' 2)
  show ?thesis
  proof (cases "drive fuel create (cursor_at [97, ch_lf, ch_space, 98] 0)")
    case None
    then show ?thesis .
  next
    case (Some r)
    from drive_more_fuel [OF Some, of 4] have
      "drive (Suc (Suc (Suc (Suc fuel)))) create (cursor_at [97, ch_lf, ch_space, 98] 0) = Some r"
      by (simp add: numeral_eq_Suc)
    then show ?thesis using 1 [of fuel] by simp
  qed
qed

subsection \<open>Documents of indented content lines\<close>

lemma count_indent_blanks:
  assumes "c \<noteq> ch_space" and "c \<noteq> ch_tab"
  shows "list_all blank b \<Longrightarrow>
         count_indent w \<lparr>input = b @ c # rest, column = col, token = t,
                          marked = m, result_symbol = R\<rparr>
         = (w + of_nat (width_of b),
            \<lparr>input = c # rest, column = col + length b, token = (if b = [] then t else []),
             marked = m, result_symbol = R\<rparr>)"
proof (induction b arbitrary: w col t)
  case Nil
  show ?case using assms by (subst count_indent.simps) (simp add: lookahead_def)
next
  case (Cons x b)
  have b: "list_all blank b" using Cons.prems by simp
  have "blank x" using Cons.prems by simp
  then have x: "x = ch_space \<or> x = ch_tab" by (simp add: blank_def)
  let ?l = "\<lparr>input = (x # b) @ c # rest, column = col, token = t,
             marked = m, result_symbol = R\<rparr>"
  have sk: "skip ?l = \<lparr>input = b @ c # rest, column = col + 1, token = [],
                         marked = m, result_symbol = R\<rparr>"
    using x by (auto simp: skip_def lexer_advance_def)
  have "count_indent w ?l = count_indent (if x = ch_space then w + 1 else w + 4) (skip ?l)"
    using x by (subst count_indent.simps) (auto simp: lookahead_def is_eof_def lexer_eof_def)
  also have "\<dots> = ((if x = ch_space then w + 1 else w + 4) + of_nat (width_of b),
            \<lparr>input = c # rest, column = col + 1 + length b, token = [],
             marked = m, result_symbol = R\<rparr>)"
    unfolding sk by (subst Cons.IH [OF b]) simp
  finally show ?case by (simp add: add.assoc add.commute)
qed

lemma measure_line_blanks:
  assumes "list_all blank b" and "c \<notin> {ch_space, ch_tab, ch_lf, ch_cr, ch_hash}"
  shows "measure_line (cursor_at (b @ c # rest) 0)
         = (of_nat (width_of b), cursor_at (c # rest) (length b))"
  using assms(2)
  by (subst measure_line.simps)
     (simp add: cursor_at_def count_indent_blanks [OF _ _ assms(1)] lookahead_def)

lemma consume_content_line:
  "ch_lf \<notin> set c \<Longrightarrow> ch_cr \<notin> set c \<Longrightarrow> input l = c @ ch_lf # rest \<Longrightarrow>
   input (consume_content l) = ch_lf # rest \<and> column (consume_content l) = column l + length c"
proof (induction c arbitrary: l)
  case Nil
  then show ?case by (subst (1 2) consume_content.simps) (simp add: lookahead_def)
next
  case (Cons x c)
  have a: "input (advance l) = c @ ch_lf # rest" "column (advance l) = Suc (column l)"
    using Cons.prems by (auto simp: advance_def lexer_advance_def)
  have "consume_content l = consume_content (advance l)"
    using Cons.prems
    by (subst consume_content.simps) (auto simp: lookahead_def is_eof_def lexer_eof_def)
  then show ?case using Cons.IH [OF _ _ a(1)] Cons.prems a(2) by simp
qed

lemma scan_content_inside_line:
  assumes "pending_dedents s = 0" and "content_line c"
  shows "scan s (cursor_at (c @ rest) (Suc col)) all_kinds = Some (False, s, cursor_at (c @ rest) (Suc col))"
proof -
  obtain x xs where c: "c = x # xs" using assms(2) by (cases c) (auto simp: content_line_def)
  have "scan_newline (cursor_at (c @ rest) (Suc col)) all_kinds = (False, cursor_at (c @ rest) (Suc col))"
    using assms(2) c
    by (intro scan_newline_content [where c = x and rest = "xs @ rest"])
       (auto simp: cursor_at_def content_line_def)
  then show ?thesis using assms(1) by (simp add: scan_def get_column_def cursor_at_def)
qed

lemma scan_content_same_width:
  assumes "pending_dedents s = 0" and "content_line c"
    and "stack_get s (uint (indent_depth s) - 1) = Some 0"
  shows "scan s (cursor_at (c @ rest) 0) all_kinds = Some (False, s, mark_end (cursor_at (c @ rest) 0))"
proof -
  obtain x xs where c: "c = x # xs" using assms(2) by (cases c) (auto simp: content_line_def)
  have hx: "x \<notin> {ch_space, ch_tab, ch_lf, ch_cr, ch_hash}"
    using assms(2) c by (simp add: content_line_def)
  have m: "measure_line (cursor_at ([] @ x # xs @ rest) 0) = (of_nat (width_of []), cursor_at (x # xs @ rest) (length ([] :: 32 word list)))"
    by (rule measure_line_blanks [OF _ hx]) simp
  have n: "scan_newline (mark_end (cursor_at (c @ rest) 0)) all_kinds = (False, mark_end (cursor_at (c @ rest) 0))"
    using hx c
    by (intro scan_newline_content [where c = x and rest = "xs @ rest"])
       (auto simp: cursor_at_def mark_end_def)
  have "scan_line_start s (cursor_at (c @ rest) 0) all_kinds
        = Some (False, s, mark_end (cursor_at (c @ rest) 0))"
    unfolding scan_line_start_def using m n assms(3) c
    by (simp add: not_eof_cursor Let_def)
  then show ?thesis
    using assms(1) by (simp add: scan_def get_column_def cursor_at_def all_kinds_def)
qed

lemma drive_content_to_newline:
  assumes "pending_dedents s = 0" and "content_line c" and "rest = [] \<or> hd rest \<noteq> ch_cr"
    and "scan s (cursor_at (c @ ch_lf # rest) col) all_kinds = Some (False, s, l1)"
    and "input l1 = c @ ch_lf # rest" and "column l1 = col"
  shows "drive (Suc (Suc fuel)) s (cursor_at (c @ ch_lf # rest) col)
         = (case drive fuel s (cursor_at rest 0) of
              None \<Rightarrow> None
            | Some (ev, sf) \<Rightarrow> Some ((NEWLINE, indent_depth s) # ev, sf))"
proof -
  have c: "c \<noteq> []" "ch_lf \<notin> set c" "ch_cr \<notin> set c"
    using assms(2) by (simp_all add: content_line_def)
  obtain k where k: "col + length c = Suc k" using c(1) by (cases c) auto
  have st: "start_token (consume_content l1) = cursor_at (ch_lf # rest) (Suc k)"
    using consume_content_line [OF c(2,3) assms(5)] assms(6) k by (simp add: start_token_def)
  have 1: "drive (Suc (Suc fuel)) s (cursor_at (c @ ch_lf # rest) col)
           = drive (Suc fuel) s (cursor_at (ch_lf # rest) (Suc k))"
    using c(1) by (subst drive.simps) (simp add: not_eof_cursor assms(4) st del: drive.simps)
  have 2: "drive (Suc fuel) s (cursor_at (ch_lf # rest) (Suc k))
           = (case drive fuel s (cursor_at rest 0) of
                None \<Rightarrow> None
              | Some (ev, sf) \<Rightarrow> Some ((NEWLINE, indent_depth s) # ev, sf))"
    by (simp add: not_eof_cursor scan_line_feed [OF assms(1,3)] start_token_simps
          split: option.splits)
  show ?thesis unfolding 1 2 ..
qed

lemma scan_indent_line:
  assumes "pending_dedents s = 0" and "list_all blank b" and "content_line c"
    and "stack_get s (uint (indent_depth s) - 1) = Some top_width"
    and "top_width < of_nat (width_of b)" and "unat (indent_depth s) < MAX_INDENT_DEPTH"
  shows "scan s (cursor_at (b @ c @ rest) 0) all_kinds
         = Some (True,
                 s\<lparr>indent_stack := (indent_stack s)[unat (indent_depth s) := of_nat (width_of b)],
                   indent_depth := indent_depth s + 1\<rparr>,
                 (mark_end (cursor_at (c @ rest) (length b)))\<lparr>result_symbol := INDENT\<rparr>)"
proof -
  obtain x xs where c: "c = x # xs" using assms(3) by (cases c) (auto simp: content_line_def)
  have hx: "x \<notin> {ch_space, ch_tab, ch_lf, ch_cr, ch_hash}"
    using assms(3) c by (simp add: content_line_def)
  have m: "measure_line (cursor_at (b @ x # xs @ rest) 0)
           = (of_nat (width_of b), cursor_at (x # xs @ rest) (length b))"
    by (rule measure_line_blanks [OF assms(2) hx])
  have nn: "nat (uint (indent_depth s)) = unat (indent_depth s)" by simp
  have lt: "uint (indent_depth s) < int MAX_INDENT_DEPTH"
    using assms(6) by (simp only: uint_nat of_nat_less_iff)
  have st: "stack_set s (uint (indent_depth s)) (of_nat (width_of b))
            = Some (s\<lparr>indent_stack := (indent_stack s)[unat (indent_depth s) := of_nat (width_of b)]\<rparr>)"
    using nn lt by (simp add: stack_set_def)
  have "scan_line_start s (cursor_at (b @ c @ rest) 0) all_kinds
        = Some (True,
                 s\<lparr>indent_stack := (indent_stack s)[unat (indent_depth s) := of_nat (width_of b)],
                   indent_depth := indent_depth s + 1\<rparr>,
                 (mark_end (cursor_at (c @ rest) (length b)))\<lparr>result_symbol := INDENT\<rparr>)"
    unfolding scan_line_start_def using m assms(4,5,6) st c
    by (simp add: not_eof_cursor all_kinds_def Let_def)
  then show ?thesis
    using assms(1) by (simp add: scan_def get_column_def cursor_at_def all_kinds_def)
qed

lemma scan_dedent_line:
  assumes "pending_dedents s = 0" and "list_all blank b" and "content_line c"
    and "stack_get s (uint (indent_depth s) - 1) = Some top_width"
    and "of_nat (width_of b) < top_width"
    and "pop_levels s (of_nat (width_of b)) 0 = Some (s1, cnt)" and "0 < cnt"
  shows "scan s (cursor_at (b @ c @ rest) 0) all_kinds
         = Some (True, s1\<lparr>pending_dedents := cnt - 1\<rparr>,
                 (mark_end (cursor_at (c @ rest) (length b)))\<lparr>result_symbol := DEDENT\<rparr>)"
proof -
  obtain x xs where c: "c = x # xs" using assms(3) by (cases c) (auto simp: content_line_def)
  have hx: "x \<notin> {ch_space, ch_tab, ch_lf, ch_cr, ch_hash}"
    using assms(3) c by (simp add: content_line_def)
  have m: "measure_line (cursor_at (b @ x # xs @ rest) 0)
           = (of_nat (width_of b), cursor_at (x # xs @ rest) (length b))"
    by (rule measure_line_blanks [OF assms(2) hx])
  have nlt: "\<not> top_width < of_nat (width_of b)" using assms(5) by simp
  have "scan_line_start s (cursor_at (b @ c @ rest) 0) all_kinds
        = Some (True, s1\<lparr>pending_dedents := cnt - 1\<rparr>,
                 (mark_end (cursor_at (c @ rest) (length b)))\<lparr>result_symbol := DEDENT\<rparr>)"
    unfolding scan_line_start_def using m assms(4,5,6,7) nlt c
    by (simp add: not_eof_cursor all_kinds_def Let_def)
  then show ?thesis
    using assms(1) by (simp add: scan_def get_column_def cursor_at_def all_kinds_def)
qed

text \<open>A line that opens or closes a block: the structural token, then the content and the line feed.\<close>

lemma drive_structural_line:
  assumes "scan s (cursor_at (b @ c @ ch_lf # rest) 0) all_kinds
           = Some (True, s', (mark_end (cursor_at (c @ ch_lf # rest) (length b)))\<lparr>result_symbol := T\<rparr>)"
    and "b \<noteq> []" and "pending_dedents s' = 0" and "content_line c"
    and "rest = [] \<or> hd rest \<noteq> ch_cr"
  shows "drive (Suc (Suc (Suc fuel))) s (cursor_at (b @ c @ ch_lf # rest) 0)
         = (case drive fuel s' (cursor_at rest 0) of
              None \<Rightarrow> None
            | Some (ev, sf) \<Rightarrow> Some ((T, indent_depth s) # (NEWLINE, indent_depth s') # ev, sf))"
proof -
  obtain k where k: "length b = Suc k" using assms(2) by (cases b) auto
  have dec: "scan s' (cursor_at (c @ ch_lf # rest) (Suc k)) all_kinds
             = Some (False, s', cursor_at (c @ ch_lf # rest) (Suc k))"
    by (rule scan_content_inside_line [OF assms(3,4)])
  have "drive (Suc (Suc (Suc fuel))) s (cursor_at (b @ c @ ch_lf # rest) 0)
        = (case drive (Suc (Suc fuel)) s' (cursor_at (c @ ch_lf # rest) (Suc k)) of
             None \<Rightarrow> None
           | Some (ev, sf) \<Rightarrow> Some ((T, indent_depth s) # ev, sf))"
    using assms(2)
    by (subst drive.simps)
       (simp add: not_eof_cursor assms(1) start_token_simps k del: drive.simps split: option.splits)
  also have "\<dots> = (case drive fuel s' (cursor_at rest 0) of
              None \<Rightarrow> None
            | Some (ev, sf) \<Rightarrow> Some ((T, indent_depth s) # (NEWLINE, indent_depth s') # ev, sf))"
  proof -
    have i1: "input (cursor_at (c @ ch_lf # rest) (Suc k)) = c @ ch_lf # rest"
      and i2: "column (cursor_at (c @ ch_lf # rest) (Suc k)) = Suc k"
      by (simp_all add: cursor_at_def)
    show ?thesis
      unfolding drive_content_to_newline [OF assms(3,4,5) dec i1 i2]
      by (simp split: option.splits)
  qed
  finally show ?thesis .
qed

lemma blanks_content_no_cr:
  assumes "list_all blank b" and "content_line c"
  shows "b @ c @ r = [] \<or> hd (b @ c @ r) \<noteq> ch_cr"
proof (cases b)
  case Nil
  then show ?thesis using assms(2) by (cases c) (auto simp: content_line_def)
next
  case (Cons x xs)
  then have "blank x" using assms(1) by simp
  then show ?thesis using Cons by (auto simp: blank_def)
qed

lemma width_of_zero: "width_of b = 0 \<Longrightarrow> b = []"
  by (cases b) (auto split: if_splits)

lemma drive_structural_token:
  assumes "scan s (cursor_at X 0) all_kinds
           = Some (True, s', (mark_end (cursor_at Y k))\<lparr>result_symbol := T\<rparr>)"
    and "X \<noteq> []"
  shows "drive (Suc fuel) s (cursor_at X 0)
         = (case drive fuel s' (cursor_at Y k) of
              None \<Rightarrow> None
            | Some (ev, sf) \<Rightarrow> Some ((T, indent_depth s) # ev, sf))"
  using assms(2)
  by (subst drive.simps)
     (simp add: not_eof_cursor assms(1) start_token_simps del: drive.simps split: option.splits)

text \<open>
  C6. Take any document of five lines whose leading blanks have the widths 0, 4, 8, 4
  and 0, whatever the blanks (spaces or tabs) and whatever the content of the lines.
  Driven from the fresh scanner with every kind requested, the run ends at the end of
  the input at depth 1, and the tokens it has emitted, NEWLINE left out, are INDENT,
  INDENT, DEDENT, DEDENT.
\<close>

theorem five_lines_tokens:
  assumes blanks: "list_all blank b0" "list_all blank b1" "list_all blank b2"
      "list_all blank b3" "list_all blank b4"
    and widths: "map width_of [b0, b1, b2, b3, b4] = [0, 4, 8, 4, 0]"
    and contents: "content_line c0" "content_line c1" "content_line c2"
      "content_line c3" "content_line c4"
  shows "\<exists>ev s. drive 15 create
                 (cursor_at (text_line b0 c0 @ text_line b1 c1 @ text_line b2 c2 @
                             text_line b3 c3 @ text_line b4 c4) 0) = Some (ev, s) \<and>
               filter (\<lambda>k. k \<noteq> NEWLINE) (tokens ev) = [INDENT, INDENT, DEDENT, DEDENT]"
proof -
  let ?Z = "replicate MAX_INDENT_DEPTH (0 :: 16 word)"
  let ?S0 = "\<lparr>indent_stack = ?Z, indent_depth = 1, pending_dedents = 0\<rparr>"
  let ?S1 = "\<lparr>indent_stack = ?Z[1 := 4], indent_depth = 2, pending_dedents = 0\<rparr>"
  let ?S2 = "\<lparr>indent_stack = ?Z[1 := 4, 2 := 8], indent_depth = 3, pending_dedents = 0\<rparr>"
  let ?S3 = "\<lparr>indent_stack = ?Z[1 := 4, 2 := 8], indent_depth = 2, pending_dedents = 0\<rparr>"
  let ?S4 = "\<lparr>indent_stack = ?Z[1 := 4, 2 := 8], indent_depth = 1, pending_dedents = 0\<rparr>"
  let ?t4 = "[] :: 32 word list"
  let ?t3 = "c4 @ ch_lf # ?t4"
  let ?t2 = "b3 @ c3 @ ch_lf # ?t3"
  let ?t1 = "b2 @ c2 @ ch_lf # ?t2"
  let ?t0 = "b1 @ c1 @ ch_lf # ?t1"
  let ?f5 = "Suc (Suc (Suc (Suc 0)))"
  let ?f4 = "Suc (Suc (Suc ?f5))"
  let ?f3 = "Suc (Suc (Suc ?f4))"
  let ?f2 = "Suc (Suc (Suc ?f3))"
  have w: "width_of b0 = 0" "width_of b1 = 4" "width_of b2 = 8" "width_of b3 = 4" "width_of b4 = 0"
    using widths by simp_all
  have b0: "b0 = []" and b4: "b4 = []" using w(1,5) by (simp_all add: width_of_zero)
  have ne: "b1 \<noteq> []" "b2 \<noteq> []" "b3 \<noteq> []" using w(2,3,4) by auto
  have ok: "?t4 = [] \<or> hd ?t4 \<noteq> ch_cr" "?t3 = [] \<or> hd ?t3 \<noteq> ch_cr"
    "?t2 = [] \<or> hd ?t2 \<noteq> ch_cr" "?t1 = [] \<or> hd ?t1 \<noteq> ch_cr" "?t0 = [] \<or> hd ?t0 \<noteq> ch_cr"
    using blanks_content_no_cr [OF _ contents(5), of "[]" "ch_lf # ?t4"]
      blanks_content_no_cr [OF blanks(4) contents(4), of "ch_lf # ?t3"]
      blanks_content_no_cr [OF blanks(3) contents(3), of "ch_lf # ?t2"]
      blanks_content_no_cr [OF blanks(2) contents(2), of "ch_lf # ?t1"]
    by simp_all
  have top0: "stack_get ?S0 (uint (indent_depth ?S0) - 1) = Some 0" by code_simp
  have top1: "stack_get ?S1 (uint (indent_depth ?S1) - 1) = Some 4" by code_simp
  have top2: "stack_get ?S2 (uint (indent_depth ?S2) - 1) = Some 8" by code_simp
  have top4: "stack_get ?S4 (uint (indent_depth ?S4) - 1) = Some 0" by code_simp
  have top3: "stack_get ?S3 (uint (indent_depth ?S3) - 1) = Some 4" by code_simp
  have pop2: "pop_levels ?S2 (of_nat (width_of b3)) 0 = Some (?S3, 1)" unfolding w by code_simp
  have pop3: "pop_levels ?S3 (of_nat (width_of [])) 0 = Some (?S4, 1)" by code_simp
  have p: "pending_dedents ?S0 = 0" "pending_dedents ?S1 = 0" "pending_dedents ?S2 = 0"
      "pending_dedents ?S3 = 0" "pending_dedents ?S4 = 0"
    by simp_all
  \<comment> \<open>the end of the input\<close>
  have e6: "drive (Suc 0) ?S4 (cursor_at [] 0) = Some ([], ?S4)"
    by (simp add: not_eof_cursor)
  \<comment> \<open>line 5: a DEDENT in column 0, then the content and the line feed\<close>
  have s5: "scan ?S3 (cursor_at (c4 @ ch_lf # ?t4) 0) all_kinds
            = Some (True, ?S4, (mark_end (cursor_at (c4 @ ch_lf # ?t4) 0))\<lparr>result_symbol := DEDENT\<rparr>)"
    using scan_dedent_line [OF p(4) _ contents(5) top3 _ pop3, of "ch_lf # ?t4"] by simp
  have d5: "scan ?S4 (cursor_at (c4 @ ch_lf # ?t4) 0) all_kinds
            = Some (False, ?S4, mark_end (cursor_at (c4 @ ch_lf # ?t4) 0))"
    by (rule scan_content_same_width [OF p(5) contents(5) top4])
  have i5: "input (mark_end (cursor_at (c4 @ ch_lf # ?t4) 0)) = c4 @ ch_lf # ?t4"
    "column (mark_end (cursor_at (c4 @ ch_lf # ?t4) 0)) = 0"
    by (simp_all add: mark_end_def cursor_at_def)
  have e5b: "drive (Suc (Suc (Suc 0))) ?S4 (cursor_at (c4 @ ch_lf # ?t4) 0) = Some ([(NEWLINE, 1)], ?S4)"
    unfolding drive_content_to_newline [OF p(5) contents(5) ok(1) d5 i5] e6 by simp
  have c4: "c4 @ ch_lf # ?t4 \<noteq> []" by simp
  have e5: "drive ?f5 ?S3 (cursor_at ?t3 0) = Some ([(DEDENT, 2), (NEWLINE, 1)], ?S4)"
    unfolding drive_structural_token [OF s5 c4] e5b by simp
  \<comment> \<open>line 4: a DEDENT\<close>
  have s4: "scan ?S2 (cursor_at (b3 @ c3 @ ch_lf # ?t3) 0) all_kinds
            = Some (True, ?S3, (mark_end (cursor_at (c3 @ ch_lf # ?t3) (length b3)))\<lparr>result_symbol := DEDENT\<rparr>)"
    using scan_dedent_line [OF p(3) blanks(4) contents(4) top2 _ pop2, of "ch_lf # ?t3"] w by simp
  have e4: "drive ?f4 ?S2 (cursor_at ?t2 0)
            = Some ([(DEDENT, 3), (NEWLINE, 2), (DEDENT, 2), (NEWLINE, 1)], ?S4)"
    unfolding drive_structural_line [OF s4 ne(3) p(4) contents(4) ok(2)] e5 by simp
  \<comment> \<open>line 3: an INDENT\<close>
  have s3: "scan ?S1 (cursor_at (b2 @ c2 @ ch_lf # ?t2) 0) all_kinds
            = Some (True, ?S2, (mark_end (cursor_at (c2 @ ch_lf # ?t2) (length b2)))\<lparr>result_symbol := INDENT\<rparr>)"
    using scan_indent_line [OF p(2) blanks(3) contents(3) top1, of "ch_lf # ?t2"] w
    by (simp add: MAX_INDENT_DEPTH_def)
  have e3: "drive ?f3 ?S1 (cursor_at ?t1 0)
            = Some ([(INDENT, 2), (NEWLINE, 3), (DEDENT, 3), (NEWLINE, 2), (DEDENT, 2), (NEWLINE, 1)], ?S4)"
    unfolding drive_structural_line [OF s3 ne(2) p(3) contents(3) ok(3)] e4 by simp
  \<comment> \<open>line 2: an INDENT\<close>
  have s2: "scan ?S0 (cursor_at (b1 @ c1 @ ch_lf # ?t1) 0) all_kinds
            = Some (True, ?S1, (mark_end (cursor_at (c1 @ ch_lf # ?t1) (length b1)))\<lparr>result_symbol := INDENT\<rparr>)"
    using scan_indent_line [OF p(1) blanks(2) contents(2) top0, of "ch_lf # ?t1"] w
    by (simp add: MAX_INDENT_DEPTH_def)
  have e2: "drive ?f2 ?S0 (cursor_at ?t0 0)
            = Some ([(INDENT, 1), (NEWLINE, 2), (INDENT, 2), (NEWLINE, 3), (DEDENT, 3),
                     (NEWLINE, 2), (DEDENT, 2), (NEWLINE, 1)], ?S4)"
    unfolding drive_structural_line [OF s2 ne(1) p(2) contents(2) ok(4)] e3 by simp
  \<comment> \<open>line 1: content in column 0 at the width of the stack top\<close>
  have d1: "scan ?S0 (cursor_at (c0 @ ch_lf # ?t0) 0) all_kinds
            = Some (False, ?S0, mark_end (cursor_at (c0 @ ch_lf # ?t0) 0))"
    by (rule scan_content_same_width [OF p(1) contents(1) top0])
  have i1: "input (mark_end (cursor_at (c0 @ ch_lf # ?t0) 0)) = c0 @ ch_lf # ?t0"
    "column (mark_end (cursor_at (c0 @ ch_lf # ?t0) 0)) = 0"
    by (simp_all add: mark_end_def cursor_at_def)
  have e1: "drive (Suc (Suc ?f2)) ?S0 (cursor_at (c0 @ ch_lf # ?t0) 0)
            = Some ([(NEWLINE, 1), (INDENT, 1), (NEWLINE, 2), (INDENT, 2), (NEWLINE, 3), (DEDENT, 3),
                     (NEWLINE, 2), (DEDENT, 2), (NEWLINE, 1)], ?S4)"
    unfolding drive_content_to_newline [OF p(1) contents(1) ok(5) d1 i1] e2 by simp
  have doc: "text_line b0 c0 @ text_line b1 c1 @ text_line b2 c2 @ text_line b3 c3 @ text_line b4 c4
             = c0 @ ch_lf # ?t0"
    by (simp add: text_line_def b0 b4)
  have f: "(15 :: nat) = Suc (Suc ?f2)" by simp
  have "drive 15 create
          (cursor_at (text_line b0 c0 @ text_line b1 c1 @ text_line b2 c2 @
                      text_line b3 c3 @ text_line b4 c4) 0)
        = Some ([(NEWLINE, 1), (INDENT, 1), (NEWLINE, 2), (INDENT, 2), (NEWLINE, 3), (DEDENT, 3),
                 (NEWLINE, 2), (DEDENT, 2), (NEWLINE, 1)], ?S4)"
    unfolding doc f create_def by (rule e1)
  then show ?thesis by (simp add: tokens_def)
qed

theorem five_lines_tokens_witness:
  "\<exists>ev s. drive 15 create
            (cursor_at [97, ch_lf, ch_space, ch_space, ch_space, ch_space, 98, ch_lf,
                        ch_tab, ch_tab, 99, ch_lf,
                        ch_space, ch_space, ch_space, ch_space, 100, ch_lf, 101, ch_lf] 0)
          = Some (ev, s) \<and>
          filter (\<lambda>k. k \<noteq> NEWLINE) (tokens ev) = [INDENT, INDENT, DEDENT, DEDENT]"
proof -
  let ?sp = "[ch_space, ch_space, ch_space, ch_space]"
  let ?tb = "[ch_tab, ch_tab]"
  have b: "list_all blank []" "list_all blank ?sp" "list_all blank ?tb"
    by (simp_all add: blank_def)
  have w: "map width_of [[], ?sp, ?tb, ?sp, []] = [0, 4, 8, 4, 0]" by simp
  have c: "content_line [97]" "content_line [98]" "content_line [99]" "content_line [100]"
      "content_line [101]"
    by (simp_all add: content_line_def)
  from five_lines_tokens [OF b(1) b(2) b(3) b(2) b(1) w c]
  show ?thesis by (simp add: text_line_def)
qed

end
